theory Spec2Isabelle
  imports Main
begin

section \<open>Constants of project.c\<close>

definition MAX_IP_LEN :: nat where
  "MAX_IP_LEN = 16"

definition NUM_ROUTERS :: nat where
  "NUM_ROUTERS = 4"

definition MAX_NETWORKS_PER_ROUTER :: nat where
  "MAX_NETWORKS_PER_ROUTER = 4"

definition MAX_ROUTE_HISTORY :: nat where
  "MAX_ROUTE_HISTORY = 20"

section \<open>The C library functions the program calls\<close>

text \<open>
  C strings are modelled as \<^typ>\<open>string\<close> (the bytes before the terminating NUL).
  \<open>isdigit\<close> and \<open>isspace\<close> are those of the C locale.
\<close>

definition isdigit :: "char \<Rightarrow> bool" where
  "isdigit c = (48 \<le> (of_char c :: nat) \<and> (of_char c :: nat) \<le> 57)"

definition isspace :: "char \<Rightarrow> bool" where
  "isspace c = ((of_char c :: nat) = 32 \<or> (9 \<le> (of_char c :: nat) \<and> (of_char c :: nat) \<le> 13))"

definition digit_val :: "char \<Rightarrow> nat" where
  "digit_val c = of_char c - 48"

definition digit_char :: "nat \<Rightarrow> char" where
  "digit_char n = char_of (48 + n)"

text \<open>The value of a run of decimal digits, most significant first.\<close>

definition digits_value :: "string \<Rightarrow> nat" where
  "digits_value s = foldl (\<lambda>acc c. acc * 10 + digit_val c) 0 s"

text \<open>
  \<open>atoi\<close> and \<open>atoll\<close>: skip white space, read an optional sign, then the longest run
  of digits. The model returns the mathematical value. C leaves the result undefined when
  it does not fit the return type: for \<open>atoll\<close> the theorems establish the range of every
  route that is stored, for \<open>atoi\<close> see \<open>validate_ip\<close> below.
\<close>

definition parse_decimal :: "string \<Rightarrow> int" where
  "parse_decimal s =
     (let s1 = dropWhile isspace s in
      case s1 of
        [] \<Rightarrow> 0
      | c # t \<Rightarrow>
          if c = CHR ''-'' then - int (digits_value (takeWhile isdigit t))
          else if c = CHR ''+'' then int (digits_value (takeWhile isdigit t))
          else int (digits_value (takeWhile isdigit s1)))"

definition atoi :: "string \<Rightarrow> int" where
  "atoi s = parse_decimal s"

definition atoll :: "string \<Rightarrow> int" where
  "atoll s = parse_decimal s"

text \<open>\<open>sprintf\<close> with \<open>%d\<close> or \<open>%lld\<close>: the decimal representation.\<close>

function dec_nat :: "nat \<Rightarrow> string" where
  "dec_nat n = (if n < 10 then [digit_char n] else dec_nat (n div 10) @ [digit_char (n mod 10)])"
  by pat_completeness auto
termination
  by (relation "measure id") auto

declare dec_nat.simps [simp del]

definition sprintf_d :: "int \<Rightarrow> string" where
  "sprintf_d i = (if i < 0 then CHR ''-'' # dec_nat (nat (- i)) else dec_nat (nat i))"

text \<open>
  \<open>strtok\<close> with the delimiter set \<open>"."\<close>, on the text that is still to be scanned:
  leading dots are skipped; if nothing is left there is no token; otherwise the token runs
  to the next dot (which is overwritten) or to the end, and scanning resumes after it.
\<close>

definition is_dot :: "char \<Rightarrow> bool" where
  "is_dot c = (c = CHR ''.'')"

definition strtok :: "string \<Rightarrow> (string \<times> string) option" where
  "strtok s =
     (let s1 = dropWhile is_dot s in
      if s1 = [] then None
      else Some (takeWhile (\<lambda>c. \<not> is_dot c) s1, drop 1 (dropWhile (\<lambda>c. \<not> is_dot c) s1)))"

section \<open>Utility functions\<close>

subsection \<open>\<open>validate_number\<close>\<close>

definition validate_number :: "string \<Rightarrow> bool" where
  "validate_number str = (if str = [] then False else list_all isdigit str)"

subsection \<open>\<open>validate_ip\<close>\<close>

text \<open>
  The \<open>while (ptr)\<close> loop of \<open>validate_ip\<close>: \<open>ptr\<close> is the current token, \<open>rest\<close> the text
  \<open>strtok\<close> has still to scan. C leaves the result of \<open>atoi\<close> undefined when the value
  does not fit an \<open>int\<close>, so the loop is defined for any conversion function \<open>conv\<close> in the
  place of \<open>atoi\<close>; lemma \<open>validate_ip_any_atoi\<close> shows that, on a string that fits the
  buffer, the result is the same for every \<open>conv\<close> that agrees with \<open>atoi\<close> on the values an
  \<open>int\<close> can hold.
\<close>

lemma strtok_shorter: "strtok s = Some (tok, rest) \<Longrightarrow> length rest < length s"
proof -
  assume a: "strtok s = Some (tok, rest)"
  let ?s1 = "dropWhile is_dot s"
  let ?s2 = "dropWhile (\<lambda>c. \<not> is_dot c) ?s1"
  from a have ne: "?s1 \<noteq> []" and r: "rest = drop 1 ?s2"
    by (auto simp: strtok_def Let_def split: if_splits)
  have l1: "length ?s1 \<le> length s" by (rule length_dropWhile_le)
  have l2: "length ?s2 \<le> length ?s1" by (rule length_dropWhile_le)
  from ne have pos: "0 < length ?s1" by simp
  show ?thesis
  proof (cases "?s2 = []")
    case True
    with r have "length rest = 0" by simp
    with pos l1 show ?thesis by linarith
  next
    case False
    then have "length rest < length ?s2" using r by simp
    with l1 l2 show ?thesis by linarith
  qed
qed

function ip_loop :: "(string \<Rightarrow> int) \<Rightarrow> string \<Rightarrow> string \<Rightarrow> nat \<Rightarrow> nat \<Rightarrow> bool" where
  "ip_loop conv ptr rest octet_count dots =
     (if \<not> validate_number ptr then False
      else if conv ptr < 0 \<or> conv ptr > 255 then False
      else (case strtok rest of
              None \<Rightarrow> \<not> (Suc octet_count \<noteq> 4 \<or> dots \<noteq> 3)
            | Some (ptr', rest') \<Rightarrow> ip_loop conv ptr' rest' (Suc octet_count) (Suc dots)))"
  by pat_completeness auto
termination
  by (relation "measure (\<lambda>(conv, ptr, rest, oc, d). length rest)") (auto dest: strtok_shorter)

declare ip_loop.simps [simp del]

definition validate_ip_with :: "(string \<Rightarrow> int) \<Rightarrow> string \<Rightarrow> bool" where
  "validate_ip_with conv ip_str =
     (if ip_str = [] then False
      else (case strtok (take (MAX_IP_LEN - 1) ip_str) of
              None \<Rightarrow> False
            | Some (ptr, rest) \<Rightarrow> ip_loop conv ptr rest 0 0))"

definition validate_ip :: "string \<Rightarrow> bool" where
  "validate_ip ip_str = validate_ip_with atoi ip_str"

subsection \<open>\<open>concat_router_ids\<close>\<close>

text \<open>
  \<open>sprintf(s1, "%lld", current_val); sprintf(s2, "%d", new_id); strcat(s1, s2);
  return atoll(s1)\<close>. The buffers hold 32 bytes, enough for any two arguments.
\<close>

definition concat_router_ids :: "int \<Rightarrow> int \<Rightarrow> int" where
  "concat_router_ids current_val new_id = atoll (sprintf_d current_val @ sprintf_d new_id)"

section \<open>The routing logic of \<open>run_routing_simulation\<close>\<close>

subsection \<open>The connection matrix\<close>

definition connection_matrix :: "int list list" where
  "connection_matrix =
     [[1, 1, 0, 1],
      [1, 1, 1, 0],
      [0, 1, 1, 1],
      [1, 0, 1, 1]]"

text \<open>
  \<open>connection_matrix[a - 1][b - 1]\<close> for router numbers \<open>a\<close> and \<open>b\<close>. The program reads
  the matrix only with both numbers in \<open>1 .. NUM_ROUTERS\<close>; the theorems carry that range.
\<close>

definition link :: "int \<Rightarrow> int \<Rightarrow> int" where
  "link a b = connection_matrix ! nat (a - 1) ! nat (b - 1)"

definition router_id :: "int \<Rightarrow> bool" where
  "router_id r = (1 \<le> r \<and> r \<le> int NUM_ROUTERS)"

subsection \<open>Outcomes of a run\<close>

text \<open>
  A run of a piece of the program on a finite input either completes, or is still waiting
  at a prompt when the input ends (\<open>Starved\<close>), or leaves defined C behaviour.
\<close>

datatype undefined_behaviour =
    intermediate_routers_overrun nat
  | choice_uninitialised
  | ip_buffer_overrun

datatype 'a outcome = Done 'a | Starved | Undefined undefined_behaviour

subsection \<open>Manual route definition\<close>

text \<open>
  The variables of the manual loop. \<open>hops\<close> is an auxiliary variable: the router numbers
  appended to \<open>route_path\<close> so far, in order, one for each call of \<open>concat_router_ids\<close>;
  it takes no part in any decision.
\<close>

record hop_state =
  current_router :: int
  route_path :: int
  intermediate_routers :: "int list"
  router_index :: nat
  hops :: "int list"

text \<open>How one pass through the body of the \<open>do ... while\<close> loop ends.\<close>

datatype pass = Break hop_state | Test hop_state | Overrun nat

definition append_hop :: "int \<Rightarrow> hop_state \<Rightarrow> hop_state" where
  "append_hop r st = st\<lparr>route_path := concat_router_ids (route_path st) r, hops := hops st @ [r]\<rparr>"

text \<open>
  One pass, with \<open>next_router\<close> as read (\<open>-1\<close> when the input was not an integer).
  \<open>Break\<close> is the \<open>break\<close> statement; \<open>Test\<close> is a \<open>continue\<close> or the end of the body,
  both of which go to the loop test \<open>current_router != dest_router\<close>.
\<close>

definition hop_pass :: "int \<Rightarrow> hop_state \<Rightarrow> int \<Rightarrow> pass" where
  "hop_pass dest_router st next_router =
     (if next_router = 0 then
        (if link (current_router st) dest_router = 1 then Break (append_hop dest_router st)
         else Test st)
      else if next_router < 1 \<or> next_router > int NUM_ROUTERS then Test st
      else if next_router = dest_router then
        (if link (current_router st) dest_router = 1 then Break (append_hop dest_router st)
         else Test st)
      else if link (current_router st) next_router = 1 then
        (if router_index st < NUM_ROUTERS then
           Test ((append_hop next_router
                   (st\<lparr>intermediate_routers := (intermediate_routers st)[router_index st := next_router],
                       router_index := Suc (router_index st)\<rparr>))
                 \<lparr>current_router := next_router\<rparr>)
         else Overrun (router_index st))
      else Test st)"

definition scanned :: "int option \<Rightarrow> int" where
  "scanned inp = (case inp of Some n \<Rightarrow> n | None \<Rightarrow> - 1)"

text \<open>
  The loop over the numbers typed at the prompt; \<open>None\<close> stands for input that
  \<open>scanf("%d")\<close> cannot read. The result carries the input that is left.
\<close>

fun manual_loop :: "int \<Rightarrow> hop_state \<Rightarrow> int option list \<Rightarrow> (hop_state \<times> int option list) outcome" where
  "manual_loop dest_router st [] = Starved"
| "manual_loop dest_router st (inp # rest) =
     (case hop_pass dest_router st (scanned inp) of
        Break st' \<Rightarrow> Done (st', rest)
      | Test st' \<Rightarrow>
          if current_router st' \<noteq> dest_router then manual_loop dest_router st' rest
          else Done (st', rest)
      | Overrun i \<Rightarrow> Undefined (intermediate_routers_overrun i))"

definition manual_start :: "int \<Rightarrow> hop_state" where
  "manual_start source_router =
     \<lparr>current_router = source_router,
      route_path = concat_router_ids 0 source_router,
      intermediate_routers = replicate NUM_ROUTERS 0,
      router_index = 0,
      hops = [source_router]\<rparr>"

subsection \<open>Determining a new route\<close>

text \<open>
  The result of route determination: \<open>route_path\<close> and the router numbers it was built
  from. The \<open>goto\<close> of the direct route jumps over the initialisation of the variables of
  the manual loop, so only these two are returned.
\<close>

record route =
  encoded :: int
  routers :: "int list"

definition route_of :: "hop_state \<Rightarrow> route" where
  "route_of st = \<lparr>encoded = route_path st, routers = hops st\<rparr>"

definition determine_route :: "int \<Rightarrow> int \<Rightarrow> int option list \<Rightarrow> (route \<times> int option list) outcome" where
  "determine_route source_router dest_router numbers =
     (if link source_router dest_router = 1 then
        (case numbers of
           [] \<Rightarrow> Starved
         | None # rest \<Rightarrow> Undefined choice_uninitialised
         | Some choice # rest \<Rightarrow>
             if choice = 1 then
               Done (\<lparr>encoded = concat_router_ids (concat_router_ids 0 source_router) dest_router,
                      routers = [source_router, dest_router]\<rparr>, rest)
             else
               (case manual_loop dest_router (manual_start source_router) rest of
                  Done (st, rest') \<Rightarrow> Done (route_of st, rest')
                | Starved \<Rightarrow> Starved
                | Undefined u \<Rightarrow> Undefined u))
      else
        (case manual_loop dest_router (manual_start source_router) numbers of
           Done (st, rest') \<Rightarrow> Done (route_of st, rest')
         | Starved \<Rightarrow> Starved
         | Undefined u \<Rightarrow> Undefined u))"

section \<open>Router configurations and the route history\<close>

subsection \<open>\<open>find_router_by_ip\<close>\<close>

text \<open>
  \<open>router_configs[i].ip[j]\<close> is \<open>router_configs ! i ! j\<close>. The two \<open>for\<close> loops visit
  the index pairs in the order of the list below and return at the first equal string.
\<close>

type_synonym router_configs = "string list list"

definition network_slots :: "nat list \<Rightarrow> (nat \<times> nat) list" where
  "network_slots num_networks =
     concat (map (\<lambda>i. map (\<lambda>j. (i, j)) [0..<num_networks ! i]) [0..<NUM_ROUTERS])"

definition find_router_by_ip :: "router_configs \<Rightarrow> string \<Rightarrow> nat list \<Rightarrow> int" where
  "find_router_by_ip router_configs ip num_networks =
     (case find (\<lambda>(i, j). router_configs ! i ! j = ip) (network_slots num_networks) of
        None \<Rightarrow> 0
      | Some (i, j) \<Rightarrow> int i + 1)"

subsection \<open>Reading the configuration\<close>

text \<open>
  Standard input is modelled as two streams: \<open>words\<close>, read by \<open>scanf("%s")\<close> into a
  buffer of \<open>MAX_IP_LEN\<close> bytes, and \<open>numbers\<close>, read by \<open>scanf("%d")\<close>.
\<close>

text \<open>\<open>do { scanf("%d", &num_networks[i]) } while (num_networks[i] < 0 || ... > MAX)\<close>.\<close>

fun read_count :: "int option list \<Rightarrow> (nat \<times> int option list) outcome" where
  "read_count [] = Starved"
| "read_count (inp # rest) =
     (if scanned inp < 0 \<or> scanned inp > int MAX_NETWORKS_PER_ROUTER then read_count rest
      else Done (nat (scanned inp), rest))"

fun read_counts :: "nat \<Rightarrow> int option list \<Rightarrow> (nat list \<times> int option list) outcome" where
  "read_counts 0 numbers = Done ([], numbers)"
| "read_counts (Suc k) numbers =
     (case read_count numbers of
        Done (n, rest) \<Rightarrow>
          (case read_counts k rest of
             Done (ns, rest') \<Rightarrow> Done (n # ns, rest')
           | Starved \<Rightarrow> Starved
           | Undefined u \<Rightarrow> Undefined u)
      | Starved \<Rightarrow> Starved
      | Undefined u \<Rightarrow> Undefined u)"

text \<open>\<open>do { scanf("%s", input_ip); } while (!validate_ip(input_ip))\<close>.\<close>

fun read_valid_ip :: "string list \<Rightarrow> (string \<times> string list) outcome" where
  "read_valid_ip [] = Starved"
| "read_valid_ip (w # ws) =
     (if MAX_IP_LEN \<le> length w then Undefined ip_buffer_overrun
      else if \<not> validate_ip w then read_valid_ip ws
      else Done (w, ws))"

text \<open>The inner loop \<open>for (j = 0; j < num_networks[i]; j++)\<close> on the row of router \<open>i\<close>.\<close>

function load_networks :: "string list \<Rightarrow> nat \<Rightarrow> nat \<Rightarrow> string list \<Rightarrow> (string list \<times> string list) outcome" where
  "load_networks row j n words =
     (if j < n then
        (case read_valid_ip words of
           Done (input_ip, rest) \<Rightarrow> load_networks (row[j := input_ip]) (Suc j) n rest
         | Starved \<Rightarrow> Starved
         | Undefined u \<Rightarrow> Undefined u)
      else Done (row, words))"
  by pat_completeness auto
termination
  by (relation "measure (\<lambda>(row, j, n, words). n - j)") auto

declare load_networks.simps [simp del]

text \<open>The outer loop \<open>for (i = 0; i < NUM_ROUTERS; i++)\<close>.\<close>

function load_routers :: "router_configs \<Rightarrow> nat \<Rightarrow> nat list \<Rightarrow> string list \<Rightarrow> (router_configs \<times> string list) outcome" where
  "load_routers router_configs i num_networks words =
     (if i < NUM_ROUTERS then
        (case load_networks (router_configs ! i) 0 (num_networks ! i) words of
           Done (row, rest) \<Rightarrow> load_routers (router_configs[i := row]) (Suc i) num_networks rest
         | Starved \<Rightarrow> Starved
         | Undefined u \<Rightarrow> Undefined u)
      else Done (router_configs, words))"
  by pat_completeness auto
termination
  by (relation "measure (\<lambda>(cfg, i, nn, words). NUM_ROUTERS - i)") auto

declare load_routers.simps [simp del]

text \<open>The global \<open>router_configs\<close> starts zeroed: every slot is the empty string.\<close>

definition router_configs_init :: router_configs where
  "router_configs_init = replicate NUM_ROUTERS (replicate MAX_NETWORKS_PER_ROUTER [])"

subsection \<open>The route history\<close>

record history =
  route_history :: "string list"
  intermediate_history :: "int list"
  history_count :: nat

definition history_init :: history where
  "history_init =
     \<lparr>route_history = replicate MAX_ROUTE_HISTORY [],
      intermediate_history = replicate MAX_ROUTE_HISTORY 0,
      history_count = 0\<rparr>"

text \<open>\<open>sprintf(current_route_key, "%s*%s", source_ip, destination_ip)\<close>.\<close>

definition route_key :: "string \<Rightarrow> string \<Rightarrow> string" where
  "route_key source_ip destination_ip = source_ip @ ''*'' @ destination_ip"

text \<open>
  The scan \<open>for (l2 = 0; l2 < history_count; l2++)\<close>, from position \<open>l2\<close>; the result is
  \<open>final_history_index\<close>.
\<close>

function history_scan :: "history \<Rightarrow> string \<Rightarrow> nat \<Rightarrow> int" where
  "history_scan h current_route_key l2 =
     (if l2 < history_count h then
        (if route_history h ! l2 = current_route_key then int l2
         else history_scan h current_route_key (Suc l2))
      else - 1)"
  by pat_completeness auto
termination
  by (relation "measure (\<lambda>(h, k, l2). history_count h - l2)") auto

declare history_scan.simps [simp del]

section \<open>The routing loop\<close>

text \<open>What the program reports for one query: the concatenated ids it prints.\<close>

datatype report = history_found int | new_route_logged int | history_full

text \<open>
  The prompt loops for the source and the destination address:
  \<open>do { scanf("%s", ip); ... } while (router == 0)\<close>.
\<close>

fun read_router :: "router_configs \<Rightarrow> nat list \<Rightarrow> string list \<Rightarrow> (string \<times> int \<times> string list) outcome" where
  "read_router router_configs num_networks [] = Starved"
| "read_router router_configs num_networks (w # ws) =
     (if MAX_IP_LEN \<le> length w then Undefined ip_buffer_overrun
      else if \<not> validate_ip w then read_router router_configs num_networks ws
      else if find_router_by_ip router_configs w num_networks = 0
        then read_router router_configs num_networks ws
      else Done (w, find_router_by_ip router_configs w num_networks, ws))"

text \<open>
  One query once both routers are known: the history check, and on a miss the
  determination of a new route and its logging.
\<close>

definition serve_query :: "history \<Rightarrow> string \<Rightarrow> string \<Rightarrow> int \<Rightarrow> int \<Rightarrow> int option list \<Rightarrow> (report \<times> history \<times> int option list) outcome" where
  "serve_query h source_ip destination_ip source_router dest_router numbers =
     (let current_route_key = route_key source_ip destination_ip;
          final_history_index = history_scan h current_route_key 0
      in
        if final_history_index \<noteq> - 1 then
          Done (history_found (intermediate_history h ! nat final_history_index), h, numbers)
        else
          (case determine_route source_router dest_router numbers of
             Done (r, rest) \<Rightarrow>
               if history_count h < MAX_ROUTE_HISTORY then
                 Done (new_route_logged (encoded r),
                       h\<lparr>route_history := (route_history h)[history_count h := current_route_key],
                         intermediate_history := (intermediate_history h)[history_count h := encoded r],
                         history_count := Suc (history_count h)\<rparr>,
                       rest)
               else Done (history_full, h, rest)
           | Starved \<Rightarrow> Starved
           | Undefined u \<Rightarrow> Undefined u))"

lemma read_router_shorter:
  "read_router cfg nn words = Done (ip, r, rest) \<Longrightarrow> length rest < length words"
  by (induction words) (auto split: if_splits)

text \<open>
  \<open>while (continue_flag == 0 && history_count < MAX_ROUTE_HISTORY)\<close>. The result lists
  the reports of the queries served, in order, with the final history and the input left.
\<close>

function routing_loop :: "router_configs \<Rightarrow> nat list \<Rightarrow> history \<Rightarrow> int \<Rightarrow> string list \<Rightarrow> int option list
    \<Rightarrow> (report list \<times> history \<times> string list \<times> int option list) outcome" where
  "routing_loop router_configs num_networks h continue_flag words numbers =
     (if continue_flag = 0 \<and> history_count h < MAX_ROUTE_HISTORY then
        (case read_router router_configs num_networks words of
           Done (source_ip, source_router, words1) \<Rightarrow>
             (case read_router router_configs num_networks words1 of
                Done (destination_ip, dest_router, words2) \<Rightarrow>
                  (case serve_query h source_ip destination_ip source_router dest_router numbers of
                     Done (rep, h', numbers1) \<Rightarrow>
                       (case numbers1 of
                          [] \<Rightarrow> Starved
                        | c # numbers2 \<Rightarrow>
                            (case routing_loop router_configs num_networks h'
                                    (case c of Some v \<Rightarrow> v | None \<Rightarrow> 1) words2 numbers2 of
                               Done (reps, hw) \<Rightarrow> Done (rep # reps, hw)
                             | Starved \<Rightarrow> Starved
                             | Undefined u \<Rightarrow> Undefined u))
                   | Starved \<Rightarrow> Starved
                   | Undefined u \<Rightarrow> Undefined u)
              | Starved \<Rightarrow> Starved
              | Undefined u \<Rightarrow> Undefined u)
         | Starved \<Rightarrow> Starved
         | Undefined u \<Rightarrow> Undefined u)
      else Done ([], h, words, numbers))"
  by pat_completeness auto
termination
proof (relation "measure (\<lambda>(cfg, nn, h, flag, words, numbers). length words)", goal_cases)
  case 1
  show ?case by simp
next
  case (2 cfg nn h flag words numbers x1 sip x2 sr w1 x3 dip x4 dr w2 x5 rep x6 h' n1 c n2)
  then show ?case
    using read_router_shorter [of cfg nn words sip sr w1] read_router_shorter [of cfg nn w1 dip dr w2]
    by simp
qed

declare routing_loop.simps [simp del]

subsection \<open>The whole simulation\<close>

definition run_routing_simulation :: "string list \<Rightarrow> int option list
    \<Rightarrow> (report list \<times> history \<times> string list \<times> int option list) outcome" where
  "run_routing_simulation words numbers =
     (case read_counts NUM_ROUTERS numbers of
        Done (num_networks, numbers1) \<Rightarrow>
          (case load_routers router_configs_init 0 num_networks words of
             Done (router_configs, words1) \<Rightarrow>
               routing_loop router_configs num_networks history_init 0 words1 numbers1
           | Starved \<Rightarrow> Starved
           | Undefined u \<Rightarrow> Undefined u)
      | Starved \<Rightarrow> Starved
      | Undefined u \<Rightarrow> Undefined u)"

section \<open>Notions used in the statements\<close>

text \<open>Every consecutive pair of the sequence has a 1 in the connection matrix.\<close>

fun linked_path :: "int list \<Rightarrow> bool" where
  "linked_path [] = True"
| "linked_path [a] = True"
| "linked_path (a # b # rest) = (link a b = 1 \<and> linked_path (b # rest))"

text \<open>
  The specification's encoding of a path: the number whose decimal digit string is the
  concatenation of the decimal representations of the router numbers, in order.
\<close>

definition path_number :: "int list \<Rightarrow> int" where
  "path_number ids = int (digits_value (concat (map (\<lambda>r. dec_nat (nat r)) ids)))"

text \<open>
  The invariant of the manual loop: \<open>hops\<close> starts at the source router, ends at the
  current router, follows links, is what \<open>route_path\<close> encodes, and its tail is the
  filled part of \<open>intermediate_routers\<close>.
\<close>

definition hop_inv :: "int \<Rightarrow> hop_state \<Rightarrow> bool" where
  "hop_inv source_router st =
     (router_id (current_router st) \<and>
      hops st \<noteq> [] \<and>
      hd (hops st) = source_router \<and>
      take (router_index st) (intermediate_routers st) = tl (hops st) \<and>
      length (hops st) = Suc (router_index st) \<and>
      last (hops st) = current_router st \<and>
      linked_path (hops st) \<and>
      list_all router_id (hops st) \<and>
      route_path st = path_number (hops st) \<and>
      router_index st \<le> NUM_ROUTERS \<and>
      length (intermediate_routers st) = NUM_ROUTERS)"

text \<open>What a finished manual loop has to have built.\<close>

definition complete_path :: "int \<Rightarrow> int \<Rightarrow> hop_state \<Rightarrow> bool" where
  "complete_path s d st =
     (hops st \<noteq> [] \<and> hd (hops st) = s \<and> last (hops st) = d \<and> linked_path (hops st) \<and>
      list_all router_id (hops st) \<and> route_path st = path_number (hops st) \<and>
      length (hops st) \<le> NUM_ROUTERS + 2)"

text \<open>
  The configuration that loading is expected to produce from words that all pass
  \<open>validate_ip\<close>: row by row, the next \<open>n\<close> words go into the first \<open>n\<close> slots.
\<close>

fun fill_rows :: "nat list \<Rightarrow> router_configs \<Rightarrow> string list \<Rightarrow> router_configs" where
  "fill_rows (n # ns) (row # rows) words = (take n words @ drop n row) # fill_rows ns rows (drop n words)"
| "fill_rows ns rows words = rows"

section \<open>Inputs used in the examples\<close>

text \<open>
  A session that fills the history: routers 1 and 2 have four networks each; sixteen
  queries go from a network of router 1 to one of router 2, four from the first network of
  router 2 to router 1, each by the direct route and each followed by the answer 0 (go on);
  a twenty-first query follows.
\<close>

definition example_sources :: "string list" where
  "example_sources = [''10.0.0.1'', ''10.0.0.2'', ''10.0.0.3'', ''10.0.0.4'']"

definition example_dests :: "string list" where
  "example_dests = [''10.0.1.1'', ''10.0.1.2'', ''10.0.1.3'', ''10.0.1.4'']"

definition example_words :: "string list" where
  "example_words =
     example_sources @ example_dests @
     concat (map (\<lambda>a. concat (map (\<lambda>b. [a, b]) example_dests)) example_sources) @
     concat (map (\<lambda>a. [''10.0.1.1'', a]) example_sources) @
     [''10.0.1.2'', ''10.0.0.1'']"

definition example_numbers :: "int option list" where
  "example_numbers = [Some 4, Some 4, Some 0, Some 0] @ concat (replicate 21 [Some 1, Some 0])"

text \<open>A history with two entries.\<close>

definition example_history :: history where
  "example_history =
     \<lparr>route_history = [''10.0.0.1*10.0.1.1'', ''10.0.0.2*10.0.1.1''] @ replicate 18 [],
      intermediate_history = [12, 1232] @ replicate 18 0,
      history_count = 2\<rparr>"

text \<open>A history with all twenty entries in use.\<close>

definition example_full_history :: history where
  "example_full_history =
     \<lparr>route_history =
        concat (map (\<lambda>a. map (\<lambda>b. route_key a b) example_dests) example_sources) @
        map (\<lambda>a. route_key ''10.0.1.1'' a) example_sources,
      intermediate_history = replicate 16 12 @ replicate 4 21,
      history_count = 20\<rparr>"

text \<open>A configuration in which routers 1 and 2 both hold \<open>10.0.0.1\<close>.\<close>

definition example_duplicate_configs :: router_configs where
  "example_duplicate_configs =
     [[''10.0.0.1'', [], [], []],
      [''10.0.0.1'', ''10.0.0.2'', [], []],
      [[], [], [], []],
      [[], [], [], []]]"

text \<open>
  A configuration in which routers 3 and 4 both hold \<open>10.0.0.1\<close>, router 1 holds another
  address and router 2 holds none.
\<close>

definition example_late_duplicate_configs :: router_configs where
  "example_late_duplicate_configs =
     [[''10.0.0.9'', [], [], []],
      [[], [], [], []],
      [''10.0.0.1'', [], [], []],
      [''10.0.0.1'', [], [], []]]"

section \<open>The specification of a valid address\<close>

text \<open>
  The pieces of a string between its dots, empty ones included; an octet; and the
  specification's valid address: exactly four pieces, each a non-empty run of digits with
  a value of at most 255.
\<close>

fun split_dots :: "string \<Rightarrow> string list" where
  "split_dots [] = [[]]"
| "split_dots (c # cs) =
     (if is_dot c then [] # split_dots cs
      else (case split_dots cs of [] \<Rightarrow> [[c]] | t # ts \<Rightarrow> (c # t) # ts))"

definition octet :: "string \<Rightarrow> bool" where
  "octet t = (t \<noteq> [] \<and> list_all isdigit t \<and> digits_value t \<le> 255)"

definition dotted_quad :: "string \<Rightarrow> bool" where
  "dotted_quad s = (length (split_dots s) = 4 \<and> list_all octet (split_dots s))"

text \<open>The non-empty pieces: the tokens that \<open>strtok\<close> finds.\<close>

definition tokens :: "string \<Rightarrow> string list" where
  "tokens s = filter (\<lambda>t. t \<noteq> []) (split_dots s)"

text \<open>The values an \<open>int\<close> can hold.\<close>

definition int_range :: "int \<Rightarrow> bool" where
  "int_range v = (- (2 ^ 31) \<le> v \<and> v < 2 ^ 31)"

section \<open>Facts about the library functions\<close>

lemma digit_char_props:
  assumes "m < 10"
  shows "isdigit (digit_char m)" and "digit_val (digit_char m) = m"
  using assms by (auto simp: isdigit_def digit_val_def digit_char_def)

lemma dec_nat_digits: "list_all isdigit (dec_nat n)"
  by (induction n rule: dec_nat.induct) (subst dec_nat.simps, simp add: digit_char_props)

lemma dec_nat_nonempty: "dec_nat n \<noteq> []"
  by (subst dec_nat.simps) simp

lemma digits_value_snoc: "digits_value (xs @ [c]) = digits_value xs * 10 + digit_val c"
  by (simp add: digits_value_def)

lemma digits_value_dec_nat: "digits_value (dec_nat n) = n"
proof (induction n rule: dec_nat.induct)
  case (1 n)
  show ?case
  proof (cases "n < 10")
    case True
    then show ?thesis by (subst dec_nat.simps) (simp add: digits_value_def digit_char_props)
  next
    case False
    with 1 show ?thesis by (subst dec_nat.simps) (simp add: digits_value_snoc digit_char_props)
  qed
qed

lemma parse_decimal_digits:
  assumes "s \<noteq> []" "list_all isdigit s"
  shows "parse_decimal s = int (digits_value s)"
proof -
  from assms obtain c t where s: "s = c # t" by (cases s) auto
  with assms have d: "isdigit c" by simp
  then have ns: "\<not> isspace c" and nm: "c \<noteq> CHR ''-''" and np: "c \<noteq> CHR ''+''"
    by (auto simp: isdigit_def isspace_def)
  have tw: "takeWhile isdigit s = s" using assms(2) by (simp add: list_all_iff)
  show ?thesis using ns nm np tw s by (simp add: parse_decimal_def)
qed

text \<open>
  Appending a one-digit number to a non-negative one: the leading \<open>0\<close> of the first call
  \<open>concat_router_ids(0, source_router)\<close> disappears in \<open>atoll\<close>.
\<close>

lemma concat_router_ids_digit:
  assumes "0 \<le> a" "0 \<le> b" "b < 10"
  shows "concat_router_ids a b = a * 10 + b"
proof -
  have b: "sprintf_d b = [digit_char (nat b)]" using assms by (simp add: sprintf_d_def dec_nat.simps)
  have a: "sprintf_d a = dec_nat (nat a)" using assms by (simp add: sprintf_d_def)
  have "list_all isdigit (dec_nat (nat a) @ [digit_char (nat b)])"
    using assms by (simp add: dec_nat_digits digit_char_props)
  then have "parse_decimal (dec_nat (nat a) @ [digit_char (nat b)])
      = int (digits_value (dec_nat (nat a) @ [digit_char (nat b)]))"
    by (intro parse_decimal_digits) simp_all
  also have "\<dots> = a * 10 + b"
    using assms by (simp add: digits_value_snoc digits_value_dec_nat digit_char_props)
  finally show ?thesis by (simp add: concat_router_ids_def atoll_def a b)
qed

section \<open>Facts about the connection matrix\<close>

lemma router_id_cases: "router_id r \<Longrightarrow> r = 1 \<or> r = 2 \<or> r = 3 \<or> r = 4"
  by (auto simp: router_id_def NUM_ROUTERS_def)

lemma router_id_digit: "router_id r \<Longrightarrow> 0 \<le> r \<and> r < 10"
  by (auto simp: router_id_def NUM_ROUTERS_def)

lemma link_row1: "link 1 1 = 1" "link 1 2 = 1" "link 1 3 = 0" "link 1 4 = 1"
  by (simp_all add: link_def connection_matrix_def)

lemma link_row2: "link 2 1 = 1" "link 2 2 = 1" "link 2 3 = 1" "link 2 4 = 0"
  by (simp_all add: link_def connection_matrix_def)

lemma link_row3: "link 3 1 = 0" "link 3 2 = 1" "link 3 3 = 1" "link 3 4 = 1"
  by (simp_all add: link_def connection_matrix_def)

lemma link_row4: "link 4 1 = 1" "link 4 2 = 0" "link 4 3 = 1" "link 4 4 = 1"
  by (simp_all add: link_def connection_matrix_def)

lemmas link_table = link_row1 link_row2 link_row3 link_row4

lemma router_id_numeral: "router_id 1" "router_id 2" "router_id 3" "router_id 4"
  by (simp_all add: router_id_def NUM_ROUTERS_def)

section \<open>The direct route\<close>

lemma determine_route_direct:
  assumes "router_id source_router" and "router_id dest_router"
    and "link source_router dest_router = 1"
  shows "determine_route source_router dest_router (Some 1 # numbers) =
           Done (\<lparr>encoded = source_router * 10 + dest_router,
                  routers = [source_router, dest_router]\<rparr>, numbers)"
proof -
  have s: "concat_router_ids 0 source_router = source_router"
    using assms(1) concat_router_ids_digit [of 0 source_router] router_id_digit by simp
  have "concat_router_ids source_router dest_router = source_router * 10 + dest_router"
    using assms(1,2) router_id_digit concat_router_ids_digit by simp
  with s assms(3) show ?thesis by (simp add: determine_route_def)
qed

text \<open>
  Claim C3. If the matrix links the source router to the destination router and the answer
  to the direct-path question is 1, route determination ends at once: the path is exactly
  source, destination (encoded as the two-digit number), and no further number is read:
  the input after the answer is returned untouched. This holds for every pair of router
  numbers in 1 .. NUM_ROUTERS.
\<close>

theorem direct_route_exact:
  assumes "router_id source_router" and "router_id dest_router"
    and "link source_router dest_router = 1"
  shows "determine_route source_router dest_router (Some 1 # numbers) =
           Done (\<lparr>encoded = source_router * 10 + dest_router,
                  routers = [source_router, dest_router]\<rparr>, numbers)
         \<and> length [source_router, dest_router] = 2"
  using determine_route_direct [OF assms] by simp

theorem direct_route_exact_witness:
  "router_id 1 \<and> router_id 4 \<and> link 1 4 = 1 \<and>
   determine_route 1 4 [Some 1, Some 2] = Done (\<lparr>encoded = 14, routers = [1, 4]\<rparr>, [Some 2])"
proof -
  have h: "router_id 1" "router_id 4" "link 1 4 = 1"
    by (simp_all add: router_id_numeral link_table)
  show ?thesis using h direct_route_exact [OF h, of "[Some 2]"] by simp
qed

section \<open>The manual loop\<close>

lemma linked_path_snoc:
  "linked_path xs \<Longrightarrow> xs \<noteq> [] \<Longrightarrow> link (last xs) y = 1 \<Longrightarrow> linked_path (xs @ [y])"
  by (induction xs rule: linked_path.induct) auto

lemma path_number_nonneg: "0 \<le> path_number ids"
  by (simp add: path_number_def)

lemma path_number_snoc:
  assumes "router_id r"
  shows "concat_router_ids (path_number ids) r = path_number (ids @ [r])"
proof -
  from assms have r: "0 \<le> r" "r < 10" using router_id_digit by auto
  then have d: "dec_nat (nat r) = [digit_char (nat r)]" by (simp add: dec_nat.simps)
  have "path_number (ids @ [r]) = path_number ids * 10 + r"
    using r by (simp add: path_number_def d digits_value_snoc digit_char_props)
  then show ?thesis using r concat_router_ids_digit [of "path_number ids" r] path_number_nonneg by simp
qed

lemma path_number_single: "router_id r \<Longrightarrow> concat_router_ids 0 r = path_number [r]"
  using path_number_snoc [of r "[]"] by (simp add: path_number_def digits_value_def)

lemma path_number_bound: "list_all router_id ids \<Longrightarrow> path_number ids < 10 ^ length ids"
proof (induction ids rule: rev_induct)
  case Nil
  then show ?case by (simp add: path_number_def digits_value_def)
next
  case (snoc r ids)
  then have r: "router_id r" and l: "list_all router_id ids" by simp_all
  from r have r10: "0 \<le> r" "r < 10" using router_id_digit by auto
  have "path_number (ids @ [r]) = path_number ids * 10 + r"
    using path_number_snoc [OF r, of ids] concat_router_ids_digit [of "path_number ids" r] r10
      path_number_nonneg by simp
  moreover have "path_number ids + 1 \<le> 10 ^ length ids" using snoc.IH [OF l] by simp
  ultimately show ?case using r10 by simp
qed

lemma hop_inv_start: "router_id s \<Longrightarrow> hop_inv s (manual_start s)"
  by (simp add: hop_inv_def manual_start_def path_number_single)

lemma hop_inv_hops_nonempty: "hop_inv s st \<Longrightarrow> hops st \<noteq> []"
  by (simp add: hop_inv_def)

text \<open>A pass that goes on to the loop test keeps the invariant.\<close>

lemma hop_pass_Test_inv:
  assumes "hop_inv s st" and "router_id d" and "hop_pass d st n = Test st'"
  shows "hop_inv s st'"
proof (cases "st' = st")
  case True
  with assms show ?thesis by simp
next
  case False
  with assms(3) have n: "router_id n" and l: "link (current_router st) n = 1"
    and i: "router_index st < NUM_ROUTERS"
    and st': "st' = (append_hop n (st\<lparr>intermediate_routers := (intermediate_routers st)[router_index st := n],
                       router_index := Suc (router_index st)\<rparr>))\<lparr>current_router := n\<rparr>"
    by (auto simp: hop_pass_def router_id_def split: if_splits)
  from assms(1) have h: "take (router_index st) (intermediate_routers st) = tl (hops st)"
    and ne: "hops st \<noteq> []"
    and len: "length (intermediate_routers st) = NUM_ROUTERS" by (simp_all add: hop_inv_def)
  have "take (Suc (router_index st)) ((intermediate_routers st)[router_index st := n])
      = take (router_index st) (intermediate_routers st) @ [n]"
    using i len by (simp add: take_Suc_conv_app_nth)
  with h ne have tk: "take (Suc (router_index st)) ((intermediate_routers st)[router_index st := n])
      = tl (hops st @ [n])" by simp
  show ?thesis
    using assms(1) n l i tk
    by (simp add: hop_inv_def st' append_hop_def linked_path_snoc path_number_snoc)
qed

text \<open>A pass that breaks out of the loop has appended the destination over a link.\<close>

lemma hop_pass_Break:
  assumes "hop_inv s st" and "router_id d" and "hop_pass d st n = Break st'"
  shows "st' = append_hop d st \<and> link (current_router st) d = 1"
  using assms(3) by (auto simp: hop_pass_def split: if_splits)

lemma hop_inv_length: "hop_inv s st \<Longrightarrow> length (hops st) \<le> Suc NUM_ROUTERS"
  by (simp add: hop_inv_def)

lemma append_hop_complete:
  assumes "hop_inv s st" and "router_id d" and "link (current_router st) d = 1"
  shows "complete_path s d (append_hop d st)"
  using assms hop_inv_length [OF assms(1)]
  by (simp add: hop_inv_def complete_path_def append_hop_def linked_path_snoc path_number_snoc)

lemma hop_inv_complete:
  assumes "hop_inv s st" and "current_router st = d"
  shows "complete_path s d st"
  using assms hop_inv_length [OF assms(1)] by (simp add: hop_inv_def complete_path_def)

lemma manual_loop_complete:
  assumes "router_id d"
  shows "hop_inv s st \<Longrightarrow> manual_loop d st numbers = Done (st', rest) \<Longrightarrow> complete_path s d st'"
proof (induction numbers arbitrary: st)
  case Nil
  then show ?case by simp
next
  case (Cons inp numbers)
  show ?case
  proof (cases "hop_pass d st (scanned inp)")
    case (Break st1)
    with Cons.prems have "st' = st1" by simp
    with Break hop_pass_Break [OF Cons.prems(1) assms Break] append_hop_complete [OF Cons.prems(1) assms]
    show ?thesis by simp
  next
    case (Test st1)
    have inv1: "hop_inv s st1" by (rule hop_pass_Test_inv [OF Cons.prems(1) assms Test])
    show ?thesis
    proof (cases "current_router st1 = d")
      case True
      with Test Cons.prems have "st' = st1" by simp
      with inv1 True show ?thesis by (simp add: hop_inv_complete)
    next
      case False
      with Test Cons.prems have "manual_loop d st1 numbers = Done (st', rest)" by simp
      with inv1 show ?thesis by (rule Cons.IH)
    qed
  next
    case (Overrun i)
    with Cons.prems show ?thesis by simp
  qed
qed

lemma replicate_four: "replicate 4 x = [x, x, x, x]"
  by (simp add: numeral_eq_Suc)

lemmas eval_manual = determine_route_def hop_pass_def scanned_def link_table append_hop_def
  concat_router_ids_digit manual_start_def NUM_ROUTERS_def route_of_def replicate_four

text \<open>Every route that route determination returns, direct or manual.\<close>

lemma determine_route_complete:
  assumes "router_id s" and "router_id d" and "determine_route s d numbers = Done (r, rest)"
  shows "routers r \<noteq> [] \<and> hd (routers r) = s \<and> last (routers r) = d \<and> linked_path (routers r) \<and>
         list_all router_id (routers r) \<and> encoded r = path_number (routers r) \<and>
         length (routers r) \<le> NUM_ROUTERS + 2"
proof -
  have manual: "routers r \<noteq> [] \<and> hd (routers r) = s \<and> last (routers r) = d \<and> linked_path (routers r) \<and>
         list_all router_id (routers r) \<and> encoded r = path_number (routers r) \<and>
         length (routers r) \<le> NUM_ROUTERS + 2"
    if "manual_loop d (manual_start s) ns = Done (st, rest)" and "r = route_of st" for ns st
    using manual_loop_complete [OF assms(2) hop_inv_start [OF assms(1)] that(1)] that(2)
    by (simp add: complete_path_def route_of_def)
  show ?thesis
  proof (cases "link s d = 1")
    case False
    with assms(3) obtain st where "manual_loop d (manual_start s) numbers = Done (st, rest)" "r = route_of st"
      by (auto simp: determine_route_def split: outcome.splits)
    then show ?thesis by (rule manual)
  next
    case True
    with assms(3) obtain c ns where numbers: "numbers = Some c # ns"
      by (auto simp: determine_route_def split: list.splits option.splits)
    show ?thesis
    proof (cases "c = 1")
      case True
      with numbers \<open>link s d = 1\<close> assms(3) determine_route_direct [OF assms(1,2) \<open>link s d = 1\<close>, of ns]
      have r: "r = \<lparr>encoded = s * 10 + d, routers = [s, d]\<rparr>" by simp
      have "path_number [s, d] = s * 10 + d"
        using path_number_snoc [OF assms(2), of "[s]"] path_number_single [OF assms(1)]
          concat_router_ids_digit [of 0 s] concat_router_ids_digit [of s d]
          router_id_digit [OF assms(1)] router_id_digit [OF assms(2)] by simp
      with r assms(1,2) \<open>link s d = 1\<close> show ?thesis by (simp add: NUM_ROUTERS_def)
    next
      case False
      with numbers \<open>link s d = 1\<close> assms(3)
      obtain st where "manual_loop d (manual_start s) ns = Done (st, rest)" "r = route_of st"
        by (auto simp: determine_route_def split: outcome.splits)
      then show ?thesis by (rule manual)
    qed
  qed
qed

text \<open>
  Claim C1. Whenever the manual loop, started at the source router, comes to an end on some
  sequence of typed numbers, the path it has assembled is a non-empty sequence of router
  numbers that starts with the source router, ends with the destination router, and has a
  1 in the connection matrix for every consecutive pair. (A run that ends as \<open>Starved\<close>
  has not terminated; one that ends as \<open>Undefined\<close> has written past
  \<open>intermediate_routers\<close>, after which C gives no meaning to the run.)
\<close>

theorem manual_path_valid:
  assumes "router_id source_router" and "router_id dest_router"
    and "manual_loop dest_router (manual_start source_router) numbers = Done (st, rest)"
  shows "hops st \<noteq> [] \<and> hd (hops st) = source_router \<and> last (hops st) = dest_router \<and>
         linked_path (hops st) \<and> list_all router_id (hops st)"
  using manual_loop_complete [OF assms(2) hop_inv_start [OF assms(1)] assms(3)]
  by (simp add: complete_path_def)

theorem manual_path_valid_witness:
  "router_id 1 \<and> router_id 3 \<and>
   manual_loop 3 (manual_start 1) [Some 2, Some 0] =
     Done (\<lparr>current_router = 2, route_path = 123, intermediate_routers = [2, 0, 0, 0],
            router_index = 1, hops = [1, 2, 3]\<rparr>, []) \<and>
   hd [1, 2, 3 :: int] = 1 \<and> last [1, 2, 3 :: int] = 3 \<and> linked_path [1, 2, 3]"
proof -
  have h: "router_id 1" "router_id 3" by (simp_all add: router_id_numeral)
  have run: "manual_loop 3 (manual_start 1) [Some 2, Some 0] =
     Done (\<lparr>current_router = 2, route_path = 123, intermediate_routers = [2, 0, 0, 0],
            router_index = 1, hops = [1, 2, 3]\<rparr>, [])"
    by (simp add: eval_manual)
  show ?thesis using h run manual_path_valid [OF h run] by simp
qed

text \<open>
  Claim C6. For every path that route determination produces (by the direct route or by
  the manual loop), the integer \<open>route_path\<close> that is stored in the history equals the
  number whose decimal digit string is the concatenation of the decimal representations of
  the router numbers of the path, in order; it fits a \<open>long long\<close>. For example the
  sequence 1, 2, 4 is the number 124.
\<close>

theorem stored_path_is_decimal_concatenation:
  assumes "router_id source_router" and "router_id dest_router"
    and "determine_route source_router dest_router numbers = Done (r, rest)"
  shows "encoded r = path_number (routers r) \<and> 0 \<le> encoded r \<and> encoded r < 2 ^ 63"
proof -
  from determine_route_complete [OF assms]
  have e: "encoded r = path_number (routers r)" and l: "list_all router_id (routers r)"
    and n: "length (routers r) \<le> 6" by (simp_all add: NUM_ROUTERS_def)
  have "path_number (routers r) < 10 ^ length (routers r)" by (rule path_number_bound [OF l])
  also have "\<dots> \<le> (10::int) ^ 6" using n by (intro power_increasing) simp_all
  finally show ?thesis using e path_number_nonneg [of "routers r"] by simp
qed

theorem stored_path_is_decimal_concatenation_witness:
  "router_id 1 \<and> router_id 4 \<and>
   determine_route 1 4 [Some 0, Some 2, Some 3, Some 4] = Done (\<lparr>encoded = 1234, routers = [1, 2, 3, 4]\<rparr>, []) \<and>
   path_number [1, 2, 3, 4] = 1234 \<and> path_number [1, 2, 4] = 124"
proof -
  have h: "router_id 1" "router_id 4" by (simp_all add: router_id_numeral)
  have run: "determine_route 1 4 [Some 0, Some 2, Some 3, Some 4] =
      Done (\<lparr>encoded = 1234, routers = [1, 2, 3, 4]\<rparr>, [])"
    by (simp add: eval_manual)
  have "path_number [1, 2, 4] = 124" by code_simp
  then show ?thesis using h run stored_path_is_decimal_concatenation [OF h run] by simp
qed

text \<open>The three kinds of rejected proposal leave every variable of the loop as it was.\<close>

lemma rejected_id_keeps_state:
  "n \<noteq> 0 \<Longrightarrow> n < 1 \<or> n > int NUM_ROUTERS \<Longrightarrow> hop_pass d st n = Test st"
  by (auto simp: hop_pass_def)

lemma rejected_link_keeps_state:
  "n \<noteq> 0 \<Longrightarrow> link (current_router st) n \<noteq> 1 \<Longrightarrow> hop_pass d st n = Test st"
  by (auto simp: hop_pass_def)

lemma rejected_finalize_keeps_state:
  "link (current_router st) d \<noteq> 1 \<Longrightarrow> hop_pass d st 0 = Test st"
  by (auto simp: hop_pass_def)

text \<open>After a rejection the next prompt follows only while the current router is not the destination.\<close>

lemma rejected_then_prompt:
  "hop_pass d st (scanned inp) = Test st \<Longrightarrow> current_router st \<noteq> d \<Longrightarrow>
     manual_loop d st (inp # rest) = manual_loop d st rest"
  by simp

lemma rejected_then_exit:
  "hop_pass d st (scanned inp) = Test st \<Longrightarrow> current_router st = d \<Longrightarrow>
     manual_loop d st (inp # rest) = Done (st, rest)"
  by simp

text \<open>
  Claim C7. A rejected proposal (a number outside 1 .. NUM_ROUTERS, a router the current
  router has no link to, a finalize request without a link to the destination) leaves the
  current router and the path as they were: the three lemmas above. The loop does not
  always go on to the next prompt, though: with the source router equal to the destination
  router, a declined direct route and the rejected number 9, the loop test
  \<open>current_router != dest_router\<close> fails and the assembly ends with the path 1, leaving
  the next number unread.
\<close>

theorem rejected_hop_ends_assembly:
  "determine_route 1 1 [Some 0, Some 9, Some 2] = Done (\<lparr>encoded = 1, routers = [1]\<rparr>, [Some 2])
   \<and> hop_pass 1 (manual_start 1) 9 = Test (manual_start 1)"
  by (simp add: eval_manual)

text \<open>
  Claim C10. The number of accepted intermediate hops is not bounded by NUM_ROUTERS: from
  router 1 to router 3 the hops 2, 1, 2, 1 are accepted and fill the buffer, and the fifth
  accepted hop 2 is written at index 4, which is not below NUM_ROUTERS.
\<close>

theorem fifth_hop_overruns_buffer:
  "determine_route 1 3 [Some 2, Some 1, Some 2, Some 1, Some 2] = Undefined (intermediate_routers_overrun 4)
   \<and> \<not> 4 < NUM_ROUTERS"
  by (simp add: eval_manual)

text \<open>
  Claim C9, as stated, fails: the diagonal entry of router 1 is 1, and on its strength the
  direct route from router 1 to router 1 is offered and taken (path 1, 1), and in the
  manual loop router 1 is accepted as the next hop after router 1 (path 1, 1, 2, 3).
\<close>

theorem diagonal_link_counterexample:
  "link 1 1 = 1 \<and>
   determine_route 1 1 [Some 1] = Done (\<lparr>encoded = 11, routers = [1, 1]\<rparr>, []) \<and>
   determine_route 1 3 [Some 1, Some 2, Some 0] = Done (\<lparr>encoded = 1123, routers = [1, 1, 2, 3]\<rparr>, [])"
  by (simp add: eval_manual)

lemma link_diagonal: "router_id i \<Longrightarrow> link i i = 1"
  using router_id_cases [of i] by (auto simp: link_table)

text \<open>
  Claim C9, amended. The diagonal entries of the connection matrix are all 1 and route
  determination reads them like every other entry. For every router i: when source and
  destination are both i the direct route is offered and, when taken, gives the path
  i, i; in the manual loop the current router i itself, when it is not the destination
  and the buffer has room, is accepted as the next hop; and standing on the destination
  i, a finalize request or the proposal i ends the loop with i appended.
\<close>

theorem diagonal_links_are_used:
  assumes "router_id i"
  shows "link i i = 1 \<and>
         determine_route i i (Some 1 # numbers) = Done (\<lparr>encoded = i * 10 + i, routers = [i, i]\<rparr>, numbers) \<and>
         (current_router st = i \<and> dest_router \<noteq> i \<and> router_index st < NUM_ROUTERS \<longrightarrow>
            hop_pass dest_router st i =
              Test ((append_hop i
                      (st\<lparr>intermediate_routers := (intermediate_routers st)[router_index st := i],
                          router_index := Suc (router_index st)\<rparr>))\<lparr>current_router := i\<rparr>)) \<and>
         (current_router st = i \<longrightarrow> hop_pass i st 0 = Break (append_hop i st)) \<and>
         (current_router st = i \<longrightarrow> hop_pass i st i = Break (append_hop i st))"
proof -
  have d: "link i i = 1" by (rule link_diagonal [OF assms])
  have r: "1 \<le> i" "i \<le> int NUM_ROUTERS" "i \<noteq> 0" using assms by (auto simp: router_id_def)
  show ?thesis
    using d r determine_route_direct [OF assms assms d, of numbers]
    by (auto simp: hop_pass_def)
qed

theorem diagonal_links_are_used_witness:
  "router_id 1 \<and> link 1 1 = 1 \<and>
   determine_route 1 1 [Some 1] = Done (\<lparr>encoded = 11, routers = [1, 1]\<rparr>, []) \<and>
   hop_pass 3 (manual_start 1) 1 =
     Test \<lparr>current_router = 1, route_path = 11, intermediate_routers = [1, 0, 0, 0],
           router_index = 1, hops = [1, 1]\<rparr> \<and>
   hop_pass 1 (manual_start 1) 0 = Break (append_hop 1 (manual_start 1)) \<and>
   hop_pass 1 (manual_start 1) 1 = Break (append_hop 1 (manual_start 1))"
proof -
  have h: "router_id 1" by (simp add: router_id_numeral)
  show ?thesis
    using h diagonal_links_are_used [OF h, of "[]" "manual_start 1" 3]
    by (simp add: eval_manual)
qed

section \<open>Looking up the router of an address\<close>

lemma find_app:
  "find P (xs @ ys) = (case find P xs of None \<Rightarrow> find P ys | Some x \<Rightarrow> Some x)"
  by (induction xs) simp_all

lemma find_slots_None:
  "(find P (concat (map (\<lambda>i. map (\<lambda>j. (i, j)) [0..<m i]) rows)) = None) =
     (\<forall>i\<in>set rows. \<forall>j<m i. \<not> P (i, j))"
proof (induction rows)
  case Nil
  show ?case by simp
next
  case (Cons a rows)
  have "(find P (map (\<lambda>j. (a, j)) [0..<m a]) = None) = (\<forall>j<m a. \<not> P (a, j))"
    by (auto simp: find_None_iff)
  with Cons show ?case by (auto simp: find_app split: option.splits)
qed

lemma find_row_Some:
  "find P (map (\<lambda>j. (i, j)) [0..<n]) = Some x \<Longrightarrow> fst x = i \<and> snd x < n \<and> P x"
  by (auto simp: find_Some_iff)

lemma find_slots_Some:
  "find P (concat (map (\<lambda>i. map (\<lambda>j. (i, j)) [0..<m i]) [a..<b])) = Some (i, j) \<Longrightarrow>
     a \<le> i \<and> i < b \<and> j < m i \<and> P (i, j) \<and> (\<forall>i'. a \<le> i' \<and> i' < i \<longrightarrow> (\<forall>j'<m i'. \<not> P (i', j')))"
proof (induction "b - a" arbitrary: a)
  case 0
  then show ?case by simp
next
  case (Suc d)
  then have ab: "a < b" and d: "d = b - Suc a" by simp_all
  have up: "[a..<b] = a # [Suc a..<b]" using ab by (simp add: upt_conv_Cons)
  show ?case
  proof (cases "find P (map (\<lambda>j. (a, j)) [0..<m a])")
    case (Some x)
    with Suc.prems have "x = (i, j)" by (simp add: up find_app)
    with find_row_Some [OF Some] ab show ?thesis by auto
  next
    case None
    with Suc.prems have rest: "find P (concat (map (\<lambda>i. map (\<lambda>j. (i, j)) [0..<m i]) [Suc a..<b])) = Some (i, j)"
      by (simp add: up find_app)
    from None have na: "\<forall>j'<m a. \<not> P (a, j')" by (auto simp: find_None_iff)
    from Suc.hyps(1) [OF d rest]
    have ih: "Suc a \<le> i \<and> i < b \<and> j < m i \<and> P (i, j) \<and>
        (\<forall>i'. Suc a \<le> i' \<and> i' < i \<longrightarrow> (\<forall>j'<m i'. \<not> P (i', j')))" .
    have "\<forall>j'<m i'. \<not> P (i', j')" if "a \<le> i'" "i' < i" for i'
    proof (cases "i' = a")
      case True
      with na show ?thesis by simp
    next
      case False
      with that have "Suc a \<le> i'" by simp
      with ih that show ?thesis by blast
    qed
    with ih show ?thesis by auto
  qed
qed

text \<open>
  \<open>find_router_by_ip\<close> returns the number of the first router, in index order, that holds
  the address in one of its filled slots, and 0 when none does.
\<close>

lemma find_router_by_ip_none:
  "(find_router_by_ip cfg ip nn = 0) = (\<forall>i<NUM_ROUTERS. \<forall>j<nn ! i. cfg ! i ! j \<noteq> ip)"
proof (cases "find (\<lambda>(i, j). cfg ! i ! j = ip) (network_slots nn)")
  case None
  then show ?thesis
    using find_slots_None [of "\<lambda>(i, j). cfg ! i ! j = ip" "\<lambda>i. nn ! i" "[0..<NUM_ROUTERS]"]
    by (simp add: find_router_by_ip_def network_slots_def)
next
  case (Some x)
  obtain i j where x: "x = (i, j)" by (cases x)
  from Some have "find (\<lambda>(i, j). cfg ! i ! j = ip) (concat (map (\<lambda>i. map (\<lambda>j. (i, j)) [0..<nn ! i]) [0..<NUM_ROUTERS])) \<noteq> None"
    by (simp add: network_slots_def)
  then have "\<not> (\<forall>i<NUM_ROUTERS. \<forall>j<nn ! i. cfg ! i ! j \<noteq> ip)"
    using find_slots_None [of "\<lambda>(i, j). cfg ! i ! j = ip" "\<lambda>i. nn ! i" "[0..<NUM_ROUTERS]"] by auto
  with Some x show ?thesis by (simp add: find_router_by_ip_def)
qed

lemma find_router_by_ip_first:
  "(find_router_by_ip cfg ip nn = int i + 1) =
     (i < NUM_ROUTERS \<and> (\<exists>j<nn ! i. cfg ! i ! j = ip) \<and> (\<forall>i'<i. \<forall>j<nn ! i'. cfg ! i' ! j \<noteq> ip))"
proof (cases "find (\<lambda>(i, j). cfg ! i ! j = ip) (network_slots nn)")
  case None
  then have z: "find_router_by_ip cfg ip nn = 0" by (simp add: find_router_by_ip_def)
  then have "\<forall>i<NUM_ROUTERS. \<forall>j<nn ! i. cfg ! i ! j \<noteq> ip" by (simp add: find_router_by_ip_none)
  with z show ?thesis by auto
next
  case (Some x)
  obtain i0 j0 where x: "x = (i0, j0)" by (cases x)
  with Some have r: "find_router_by_ip cfg ip nn = int i0 + 1" by (simp add: find_router_by_ip_def)
  from Some x have "find (\<lambda>(i, j). cfg ! i ! j = ip)
      (concat (map (\<lambda>i. map (\<lambda>j. (i, j)) [0..<nn ! i]) [0..<NUM_ROUTERS])) = Some (i0, j0)"
    by (simp add: network_slots_def)
  from find_slots_Some [OF this]
  have f: "i0 < NUM_ROUTERS" "j0 < nn ! i0" "cfg ! i0 ! j0 = ip"
    "\<forall>i'<i0. \<forall>j'<nn ! i'. cfg ! i' ! j' \<noteq> ip" by auto
  show ?thesis
  proof
    assume "find_router_by_ip cfg ip nn = int i + 1"
    with r have "i = i0" by simp
    with f show "i < NUM_ROUTERS \<and> (\<exists>j<nn ! i. cfg ! i ! j = ip) \<and> (\<forall>i'<i. \<forall>j<nn ! i'. cfg ! i' ! j \<noteq> ip)"
      by auto
  next
    assume a: "i < NUM_ROUTERS \<and> (\<exists>j<nn ! i. cfg ! i ! j = ip) \<and> (\<forall>i'<i. \<forall>j<nn ! i'. cfg ! i' ! j \<noteq> ip)"
    have "\<not> i < i0" using a f(4) by blast
    moreover have "\<not> i0 < i" using a f(2,3) by blast
    ultimately have "i = i0" by simp
    with r show "find_router_by_ip cfg ip nn = int i + 1" by simp
  qed
qed

lemma find_router_by_ip_range:
  "find_router_by_ip cfg ip nn = 0 \<or> router_id (find_router_by_ip cfg ip nn)"
proof (cases "find (\<lambda>(i, j). cfg ! i ! j = ip) (network_slots nn)")
  case None
  then show ?thesis by (simp add: find_router_by_ip_def)
next
  case (Some x)
  obtain i0 j0 where x: "x = (i0, j0)" by (cases x)
  with Some have r: "find_router_by_ip cfg ip nn = int i0 + 1" by (simp add: find_router_by_ip_def)
  then have "i0 < NUM_ROUTERS" using find_router_by_ip_first [of cfg ip nn i0] by simp
  with r show ?thesis by (simp add: router_id_def)
qed

lemma read_router_result:
  "read_router cfg nn words = Done (ip, r, rest) \<Longrightarrow>
     router_id r \<and> r = find_router_by_ip cfg ip nn \<and> validate_ip ip \<and> length ip < MAX_IP_LEN"
proof (induction words)
  case Nil
  then show ?case by simp
next
  case (Cons w ws)
  then show ?case
    using find_router_by_ip_range [of cfg w nn] by (auto split: if_splits)
qed

section \<open>Loading the configuration\<close>

lemma read_valid_ip_accepts:
  "validate_ip w \<Longrightarrow> length w < MAX_IP_LEN \<Longrightarrow> read_valid_ip (w # ws) = Done (w, ws)"
  by simp

lemma load_networks_valid:
  assumes "\<forall>w\<in>set words. validate_ip w \<and> length w < MAX_IP_LEN"
    and "n \<le> length row" and "j \<le> n" and "n - j \<le> length words"
  shows "load_networks row j n words =
           Done (take j row @ take (n - j) words @ drop n row, drop (n - j) words)"
  using assms
proof (induction row j n words rule: load_networks.induct)
  case (1 row j n words)
  show ?case
  proof (cases "j < n")
    case False
    with "1.prems" have "j = n" by simp
    then show ?thesis by (subst load_networks.simps) simp
  next
    case True
    with "1.prems" obtain w ws where words: "words = w # ws" by (cases words) auto
    with "1.prems" have w: "validate_ip w" "length w < MAX_IP_LEN" by simp_all
    then have rd: "read_valid_ip words = Done (w, ws)" using words by simp
    have ih: "load_networks (row[j := w]) (Suc j) n ws =
        Done (take (Suc j) (row[j := w]) @ take (n - Suc j) ws @ drop n (row[j := w]), drop (n - Suc j) ws)"
      using "1.IH" [OF True rd refl] "1.prems" True words by simp
    have t: "take (Suc j) (row[j := w]) = take j row @ [w]"
      using True "1.prems"(2) by (simp add: take_Suc_conv_app_nth)
    have d: "drop n (row[j := w]) = drop n row" using True by simp
    have tw: "take (n - j) words = w # take (n - Suc j) ws"
      using True words by (simp add: take_Cons')
    have dw: "drop (n - j) words = drop (n - Suc j) ws"
      using True words by (simp add: drop_Cons')
    show ?thesis
      using True rd ih t d tw dw by (subst load_networks.simps) simp
  qed
qed

lemma load_routers_valid:
  assumes "\<forall>w\<in>set words. validate_ip w \<and> length w < MAX_IP_LEN"
    and "length cfg = NUM_ROUTERS" and "length nn = NUM_ROUTERS"
    and "\<forall>k<NUM_ROUTERS. nn ! k \<le> length (cfg ! k)"
    and "i \<le> NUM_ROUTERS" and "sum_list (drop i nn) \<le> length words"
  shows "load_routers cfg i nn words =
           Done (take i cfg @ fill_rows (drop i nn) (drop i cfg) words, drop (sum_list (drop i nn)) words)"
  using assms
proof (induction cfg i nn words rule: load_routers.induct)
  case (1 cfg i nn words)
  show ?case
  proof (cases "i < NUM_ROUTERS")
    case False
    with "1.prems" have "i = NUM_ROUTERS" by simp
    with "1.prems" show ?thesis by (subst load_routers.simps) simp
  next
    case True
    let ?n = "nn ! i"
    let ?row = "take ?n words @ drop ?n (cfg ! i)"
    from True "1.prems" have dn: "drop i nn = ?n # drop (Suc i) nn"
      and dc: "drop i cfg = cfg ! i # drop (Suc i) cfg"
      by (simp_all add: Cons_nth_drop_Suc)
    from dn "1.prems"(6) have le: "?n \<le> length words"
      and le': "sum_list (drop (Suc i) nn) \<le> length (drop ?n words)" by simp_all
    have ln: "load_networks (cfg ! i) 0 ?n words = Done (?row, drop ?n words)"
      using load_networks_valid [of words ?n "cfg ! i" 0] "1.prems"(1,4) True le by simp
    have v': "\<forall>w\<in>set (drop ?n words). validate_ip w \<and> length w < MAX_IP_LEN"
      using "1.prems"(1) by (meson in_set_dropD)
    have rows: "\<forall>k<NUM_ROUTERS. nn ! k \<le> length (cfg[i := ?row] ! k)"
    proof (intro allI impI)
      fix k assume k: "k < NUM_ROUTERS"
      show "nn ! k \<le> length (cfg[i := ?row] ! k)"
      proof (cases "k = i")
        case True
        with k "1.prems"(2,4) le show ?thesis by simp
      next
        case False
        with k "1.prems"(4) show ?thesis by simp
      qed
    qed
    have ih: "load_routers (cfg[i := ?row]) (Suc i) nn (drop ?n words) =
        Done (take (Suc i) (cfg[i := ?row]) @ fill_rows (drop (Suc i) nn) (drop (Suc i) (cfg[i := ?row])) (drop ?n words),
              drop (sum_list (drop (Suc i) nn)) (drop ?n words))"
      using "1.IH" [OF True ln refl v' _ "1.prems"(3) rows _ le'] "1.prems"(2) True by simp
    have t: "take (Suc i) (cfg[i := ?row]) = take i cfg @ [?row]"
      using True "1.prems"(2) by (simp add: take_Suc_conv_app_nth)
    have d: "drop (Suc i) (cfg[i := ?row]) = drop (Suc i) cfg" by simp
    have s: "sum_list (drop i nn) = sum_list (drop (Suc i) nn) + ?n"
      by (subst dn) simp
    have f: "fill_rows (drop i nn) (drop i cfg) words = ?row # fill_rows (drop (Suc i) nn) (drop (Suc i) cfg) (drop ?n words)"
      by (subst dn, subst dc) simp
    show ?thesis
      using True ln ih by (subst load_routers.simps) (simp add: t d s f)
  qed
qed

lemma load_routers_init:
  assumes "\<forall>w\<in>set words. validate_ip w \<and> length w < MAX_IP_LEN"
    and "length nn = NUM_ROUTERS" and "\<forall>n\<in>set nn. n \<le> MAX_NETWORKS_PER_ROUTER"
    and "sum_list nn \<le> length words"
  shows "load_routers router_configs_init 0 nn words =
           Done (fill_rows nn router_configs_init words, drop (sum_list nn) words)"
proof -
  have "\<forall>k<NUM_ROUTERS. nn ! k \<le> length (router_configs_init ! k)"
    using assms(2,3) by (simp add: router_configs_init_def)
  then show ?thesis
    using load_routers_valid [of words router_configs_init nn 0] assms
    by (simp add: router_configs_init_def)
qed

section \<open>The history check\<close>

lemma history_scan_miss:
  "\<forall>j. l \<le> j \<and> j < history_count h \<longrightarrow> route_history h ! j \<noteq> key \<Longrightarrow> history_scan h key l = - 1"
proof (induction h key l rule: history_scan.induct)
  case (1 h key l)
  show ?case
  proof (cases "l < history_count h")
    case True
    with "1.prems" have ne: "route_history h ! l \<noteq> key" by simp
    from "1.prems" have "\<forall>j. Suc l \<le> j \<and> j < history_count h \<longrightarrow> route_history h ! j \<noteq> key" by simp
    with "1.IH" [OF True ne] True ne show ?thesis by (subst history_scan.simps) simp
  next
    case False
    then show ?thesis by (subst history_scan.simps) simp
  qed
qed

lemma history_scan_hit:
  "l \<le> k \<Longrightarrow> k < history_count h \<Longrightarrow> route_history h ! k = key \<Longrightarrow>
   \<forall>j. l \<le> j \<and> j < k \<longrightarrow> route_history h ! j \<noteq> key \<Longrightarrow> history_scan h key l = int k"
proof (induction h key l rule: history_scan.induct)
  case (1 h key l)
  from "1.prems" have lt: "l < history_count h" by simp
  show ?case
  proof (cases "l = k")
    case True
    with "1.prems" lt show ?thesis by (subst history_scan.simps) simp
  next
    case False
    with "1.prems" have lk: "l < k" by simp
    with "1.prems" have ne: "route_history h ! l \<noteq> key" by simp
    have "history_scan h key (Suc l) = int k"
      using "1.IH" [OF lt ne] "1.prems" lk by simp
    with lt ne show ?thesis by (subst history_scan.simps) simp
  qed
qed

text \<open>The key of a query determines the query, when the source address has no star.\<close>

lemma route_key_inject:
  assumes "CHR ''*'' \<notin> set a" and "CHR ''*'' \<notin> set c"
  shows "(route_key a b = route_key c d) = (a = c \<and> b = d)"
proof
  assume eq: "route_key a b = route_key c d"
  have tw: "takeWhile (\<lambda>x. x \<noteq> CHR ''*'') (s @ CHR ''*'' # t) = s" if "CHR ''*'' \<notin> set s" for s t
    using that by (induction s) auto
  from eq have "takeWhile (\<lambda>x. x \<noteq> CHR ''*'') (a @ CHR ''*'' # b)
      = takeWhile (\<lambda>x. x \<noteq> CHR ''*'') (c @ CHR ''*'' # d)" by (simp add: route_key_def)
  with assms have "a = c" by (simp add: tw)
  with eq show "a = c \<and> b = d" by (simp add: route_key_def)
next
  assume "a = c \<and> b = d"
  then show "route_key a b = route_key c d" by simp
qed

lemma history_miss_determines_route:
  assumes "\<forall>j<history_count h. route_history h ! j \<noteq> route_key source_ip destination_ip"
    and "history_count h < MAX_ROUTE_HISTORY"
    and "determine_route source_router dest_router numbers = Done (r, rest)"
  shows "serve_query h source_ip destination_ip source_router dest_router numbers =
           Done (new_route_logged (encoded r),
                 h\<lparr>route_history := (route_history h)[history_count h := route_key source_ip destination_ip],
                   intermediate_history := (intermediate_history h)[history_count h := encoded r],
                   history_count := Suc (history_count h)\<rparr>, rest)"
proof -
  have "history_scan h (route_key source_ip destination_ip) 0 = - 1"
    using assms(1) by (intro history_scan_miss) simp
  with assms(2,3) show ?thesis by (simp add: serve_query_def)
qed

section \<open>Characters of a valid address\<close>

text \<open>An address that \<open>validate_ip\<close> accepts consists, up to its fifteenth character, of digits and dots.\<close>

lemma strtok_chars:
  assumes "strtok s = Some (tok, rest)"
  shows "set s \<subseteq> {c. is_dot c} \<union> set tok \<union> set rest"
proof -
  let ?s1 = "dropWhile is_dot s"
  let ?nd = "\<lambda>c. \<not> is_dot c"
  let ?s2 = "dropWhile ?nd ?s1"
  from assms have tok: "tok = takeWhile ?nd ?s1" and rest: "rest = drop 1 ?s2"
    by (auto simp: strtok_def Let_def split: if_splits)
  have s2: "set ?s2 \<subseteq> {c. is_dot c} \<union> set rest"
  proof (cases ?s2)
    case Nil
    show ?thesis unfolding Nil by simp
  next
    case (Cons c cs)
    have "\<not> ?nd (hd ?s2)" by (rule hd_dropWhile) (simp add: Cons)
    with Cons have "is_dot c" by simp
    moreover from Cons rest have "rest = cs" by simp
    ultimately show ?thesis using Cons by auto
  qed
  have s1: "set ?s1 = set tok \<union> set ?s2"
    unfolding tok by (metis set_append takeWhile_dropWhile_id)
  have s0: "set s = set (takeWhile is_dot s) \<union> set ?s1"
    by (metis set_append takeWhile_dropWhile_id)
  have d: "set (takeWhile is_dot s) \<subseteq> {c. is_dot c}"
    by (auto dest: set_takeWhileD)
  from s0 s1 s2 d show ?thesis by blast
qed

lemma strtok_None_chars: "strtok s = None \<Longrightarrow> set s \<subseteq> {c. is_dot c}"
proof -
  assume "strtok s = None"
  then have "dropWhile is_dot s = []" by (auto simp: strtok_def Let_def split: if_splits)
  then show ?thesis by (auto simp: dropWhile_eq_Nil_conv)
qed

lemma ip_loop_unfold:
  assumes "ip_loop conv ptr rest oc dots"
  shows "validate_number ptr \<and> \<not> (conv ptr < 0 \<or> conv ptr > 255) \<and>
         (case strtok rest of
            None \<Rightarrow> \<not> (Suc oc \<noteq> 4 \<or> dots \<noteq> 3)
          | Some (ptr', rest') \<Rightarrow> ip_loop conv ptr' rest' (Suc oc) (Suc dots))"
proof -
  from assms have "if \<not> validate_number ptr then False
      else if conv ptr < 0 \<or> conv ptr > 255 then False
      else (case strtok rest of
              None \<Rightarrow> \<not> (Suc oc \<noteq> 4 \<or> dots \<noteq> 3)
            | Some (ptr', rest') \<Rightarrow> ip_loop conv ptr' rest' (Suc oc) (Suc dots))"
    by (subst ip_loop.simps [symmetric])
  then show ?thesis by (simp split: if_splits)
qed

lemma ip_loop_chars:
  "ip_loop conv ptr rest oc dots \<Longrightarrow> set ptr \<union> set rest \<subseteq> {c. is_dot c \<or> isdigit c}"
proof (induction conv ptr rest oc dots rule: ip_loop.induct)
  case (1 conv ptr rest oc dots)
  from ip_loop_unfold [OF "1.prems"]
  have vn: "validate_number ptr" and r: "\<not> (conv ptr < 0 \<or> conv ptr > 255)"
    and c: "(case strtok rest of
            None \<Rightarrow> \<not> (Suc oc \<noteq> 4 \<or> dots \<noteq> 3)
          | Some (ptr', rest') \<Rightarrow> ip_loop conv ptr' rest' (Suc oc) (Suc dots))"
    by blast+
  from vn have p: "set ptr \<subseteq> {c. isdigit c}"
    by (auto simp: validate_number_def list_all_iff split: if_splits)
  show ?case
  proof (cases "strtok rest")
    case None
    with strtok_None_chars [OF None] p show ?thesis by auto
  next
    case (Some x)
    obtain ptr' rest' where x: "x = (ptr', rest')" by (cases x)
    from c Some x have l: "ip_loop conv ptr' rest' (Suc oc) (Suc dots)" by simp
    have "set ptr' \<union> set rest' \<subseteq> {c. is_dot c \<or> isdigit c}"
      using "1.IH" [OF _ _ Some x [symmetric] l] vn r by blast
    with strtok_chars [of rest ptr' rest'] Some x p show ?thesis by auto
  qed
qed

lemma validate_ip_chars:
  assumes "validate_ip s" and "length s < MAX_IP_LEN"
  shows "set s \<subseteq> {c. is_dot c \<or> isdigit c}"
proof -
  from assms(2) have t: "take (MAX_IP_LEN - 1) s = s" by simp
  from assms(1) t obtain ptr rest where st: "strtok s = Some (ptr, rest)" and l: "ip_loop atoi ptr rest 0 0"
    by (auto simp: validate_ip_def validate_ip_with_def split: if_splits option.splits)
  from strtok_chars [OF st] ip_loop_chars [OF l] show ?thesis by auto
qed

lemma validate_ip_no_star:
  assumes "validate_ip s" and "length s < MAX_IP_LEN"
  shows "CHR ''*'' \<notin> set s"
proof
  assume "CHR ''*'' \<in> set s"
  with validate_ip_chars [OF assms] have "is_dot CHR ''*'' \<or> isdigit CHR ''*''" by auto
  then show False by (simp add: is_dot_def isdigit_def)
qed

lemma read_router_no_star:
  assumes "read_router cfg nn words = Done (ip, r, rest)"
  shows "CHR ''*'' \<notin> set ip"
  using read_router_result [OF assms] validate_ip_no_star by blast

section \<open>The routing loop and the full history\<close>

text \<open>Inside the loop the history is never full, so the warning branch is not taken.\<close>

lemma serve_query_not_full:
  assumes "history_count h < MAX_ROUTE_HISTORY"
    and "serve_query h sip dip sr dr numbers = Done (rep, h', rest)"
  shows "rep \<noteq> history_full"
  using assms by (auto simp: serve_query_def Let_def split: if_splits outcome.splits)

lemma routing_loop_never_full:
  "routing_loop cfg nn h flag words numbers = Done (reports, final) \<Longrightarrow> history_full \<notin> set reports"
proof (induction cfg nn h flag words numbers arbitrary: reports final rule: routing_loop.induct)
  case (1 cfg nn h flag words numbers)
  show ?case
  proof (cases "flag = 0 \<and> history_count h < MAX_ROUTE_HISTORY")
    case False
    with "1.prems" have "reports = []" by (subst (asm) routing_loop.simps) auto
    then show ?thesis by simp
  next
    case True
    from "1.prems" True obtain sip sr w1 dip dr w2 rep h' c n2 reps fin where
      r1: "read_router cfg nn words = Done (sip, sr, w1)" and
      r2: "read_router cfg nn w1 = Done (dip, dr, w2)" and
      sq: "serve_query h sip dip sr dr numbers = Done (rep, h', c # n2)" and
      rl: "routing_loop cfg nn h' (case c of Some v \<Rightarrow> v | None \<Rightarrow> 1) w2 n2 = Done (reps, fin)" and
      res: "reports = rep # reps"
      by (subst (asm) routing_loop.simps) (auto split: outcome.splits list.splits)
    have "history_full \<notin> set reps"
      using "1.IH" [OF True r1 refl refl r2 refl refl sq refl refl refl rl] .
    moreover have "rep \<noteq> history_full"
      using True sq by (intro serve_query_not_full) auto
    ultimately show ?thesis using res by simp
  qed
qed

section \<open>The claims about the history and the configuration\<close>

text \<open>
  Claim C4. The history check scans the stored keys in the order in which they were stored
  (index order) and stops at the first one equal, as a string, to the key of the query; the
  report is then the path stored at that index, unchanged, the history is unchanged, and
  route determination is not entered: no number is read from the input. A key is the
  source address, a star, and the destination address, so for addresses without a star
  (all that pass \<open>validate_ip\<close>, lemma \<open>validate_ip_no_star\<close>) two keys are equal exactly when
  both addresses are.
\<close>

theorem history_hit_first_exact_match:
  assumes "k < history_count h"
    and "route_history h ! k = route_key source_ip destination_ip"
    and "\<forall>j<k. route_history h ! j \<noteq> route_key source_ip destination_ip"
  shows "serve_query h source_ip destination_ip source_router dest_router numbers =
           Done (history_found (intermediate_history h ! k), h, numbers) \<and>
         (CHR ''*'' \<notin> set a \<and> CHR ''*'' \<notin> set source_ip \<longrightarrow>
            (route_key a b = route_key source_ip destination_ip) = (a = source_ip \<and> b = destination_ip))"
proof -
  have "history_scan h (route_key source_ip destination_ip) 0 = int k"
    using assms by (intro history_scan_hit) simp_all
  then show ?thesis using route_key_inject [of a source_ip b destination_ip]
    by (simp add: serve_query_def)
qed

theorem history_hit_first_exact_match_witness:
  "1 < history_count example_history \<and>
   route_history example_history ! 1 = route_key ''10.0.0.2'' ''10.0.1.1'' \<and>
   route_history example_history ! 0 \<noteq> route_key ''10.0.0.2'' ''10.0.1.1'' \<and>
   serve_query example_history ''10.0.0.2'' ''10.0.1.1'' 1 2 [Some 0, Some 3] =
     Done (history_found 1232, example_history, [Some 0, Some 3]) \<and>
   route_key ''10.0.0.1'' ''10.0.1.1'' \<noteq> route_key ''10.0.0.2'' ''10.0.1.1''"
proof -
  have h1: "1 < history_count example_history" by (simp add: example_history_def)
  have h2: "route_history example_history ! 1 = route_key ''10.0.0.2'' ''10.0.1.1''"
    by (simp add: example_history_def route_key_def)
  have h0: "route_history example_history ! 0 \<noteq> route_key ''10.0.0.2'' ''10.0.1.1''"
    by (simp add: example_history_def route_key_def)
  then have h3: "\<forall>j<1. route_history example_history ! j \<noteq> route_key ''10.0.0.2'' ''10.0.1.1''"
    by simp
  have v: "intermediate_history example_history ! 1 = 1232" by (simp add: example_history_def)
  show ?thesis
    using h1 h2 h0 v history_hit_first_exact_match [OF h1 h2 h3, of 1 2 "[Some 0, Some 3]" "''10.0.0.1''" "''10.0.1.1''"]
    by simp
qed

text \<open>
  Claim C5, amended. When the history already holds MAX_ROUTE_HISTORY entries the routing
  loop ends before it reads another query: no query, new or repeated, is resolved or
  reported, nothing is read from the input, and the history is returned as it was. (So
  every query the loop does serve finds room in the history: the report \<open>history_full\<close>
  never occurs, lemma \<open>routing_loop_never_full\<close>.)
\<close>

theorem full_history_ends_routing:
  assumes "MAX_ROUTE_HISTORY \<le> history_count h"
  shows "routing_loop router_configs num_networks h continue_flag words numbers = Done ([], h, words, numbers)"
  using assms by (subst routing_loop.simps) simp

theorem full_history_ends_routing_witness:
  "MAX_ROUTE_HISTORY \<le> history_count example_full_history \<and>
   routing_loop [example_sources, example_dests, [[], [], [], []], [[], [], [], []]] [4, 4, 0, 0] example_full_history 0
       [''10.0.1.2'', ''10.0.0.1''] [Some 1, Some 0] =
     Done ([], example_full_history, [''10.0.1.2'', ''10.0.0.1''], [Some 1, Some 0])"
proof -
  have h: "MAX_ROUTE_HISTORY \<le> history_count example_full_history"
    by (simp add: example_full_history_def MAX_ROUTE_HISTORY_def)
  show ?thesis
    using h full_history_ends_routing [OF h, of "[example_sources, example_dests, [[], [], [], []], [[], [], [], []]]" "[4, 4, 0, 0]" 0
        "[''10.0.1.2'', ''10.0.0.1'']" "[Some 1, Some 0]"]
    by simp
qed

text \<open>
  Claim C5, as stated, fails: in the session of \<open>example_words\<close> and \<open>example_numbers\<close> the
  first twenty queries fill the history; the twenty-first, which has a key that is not in
  the history, is not resolved: the simulation ends with twenty reports and leaves the two
  addresses and the two numbers of that query unread.
\<close>

theorem full_history_counterexample:
  "(case run_routing_simulation example_words example_numbers of
      Done (reports, h, ws, ns) \<Rightarrow>
        length reports = 20 \<and> h = example_full_history \<and>
        route_key ''10.0.1.2'' ''10.0.0.1'' \<notin> set (route_history h) \<and>
        ws = [''10.0.1.2'', ''10.0.0.1''] \<and> ns = [Some 1, Some 0]
    | Starved \<Rightarrow> False
    | Undefined u \<Rightarrow> False)"
  by code_simp

text \<open>
  Claim C8, amended. Loading compares no address with any other: every sequence of words
  that pass \<open>validate_ip\<close> is loaded, row by row, also when the same address is given to two
  different routers; and a later lookup of such an address is settled by first match: it
  returns the lowest-numbered router that holds the address in one of its filled slots
  (so, when no router before the first of the two holds it, the first of the two), never
  the second of the two and never 0.
\<close>

theorem duplicate_ip_is_loaded:
  assumes "length num_networks = NUM_ROUTERS"
    and "list_all (\<lambda>n. n \<le> MAX_NETWORKS_PER_ROUTER) num_networks"
    and "list_all (\<lambda>w. validate_ip w \<and> length w < MAX_IP_LEN) words"
    and "length words = sum_list num_networks"
    and "cfg = fill_rows num_networks router_configs_init words"
    and "i1 < i2" and "i2 < NUM_ROUTERS"
    and "j1 < num_networks ! i1" and "j2 < num_networks ! i2"
    and "cfg ! i1 ! j1 = ip" and "cfg ! i2 ! j2 = ip"
  shows "load_routers router_configs_init 0 num_networks words = Done (cfg, []) \<and>
         (\<exists>i0. find_router_by_ip cfg ip num_networks = int i0 + 1 \<and> i0 \<le> i1 \<and>
               (\<exists>j<num_networks ! i0. cfg ! i0 ! j = ip) \<and>
               (\<forall>i'<i0. \<forall>j<num_networks ! i'. cfg ! i' ! j \<noteq> ip)) \<and>
         ((\<forall>i'<i1. \<forall>j<num_networks ! i'. cfg ! i' ! j \<noteq> ip) \<longrightarrow>
            find_router_by_ip cfg ip num_networks = int i1 + 1) \<and>
         find_router_by_ip cfg ip num_networks \<noteq> int i2 + 1 \<and>
         1 \<le> find_router_by_ip cfg ip num_networks \<and>
         find_router_by_ip cfg ip num_networks \<le> int i1 + 1"
proof -
  have l: "load_routers router_configs_init 0 num_networks words = Done (cfg, [])"
    using load_routers_init [of words num_networks] assms(1-5) by (simp add: list_all_iff)
  have i1: "i1 < NUM_ROUTERS" using assms(6,7) by simp
  with assms(8,10) have nz: "find_router_by_ip cfg ip num_networks \<noteq> 0"
    by (auto simp: find_router_by_ip_none)
  with find_router_by_ip_range [of cfg ip num_networks]
  have r: "router_id (find_router_by_ip cfg ip num_networks)" by simp
  then have "0 \<le> find_router_by_ip cfg ip num_networks - 1" by (simp add: router_id_def)
  then obtain i0 where i0: "find_router_by_ip cfg ip num_networks = int i0 + 1"
    by (metis add.commute diff_add_cancel nonneg_int_cases add.commute)
  then have first: "i0 < NUM_ROUTERS" "\<exists>j<num_networks ! i0. cfg ! i0 ! j = ip"
    "\<forall>i'<i0. \<forall>j<num_networks ! i'. cfg ! i' ! j \<noteq> ip"
    using find_router_by_ip_first [of cfg ip num_networks i0] by simp_all
  have "\<not> i1 < i0" using first(3) assms(8,10) by blast
  then have le: "i0 \<le> i1" by simp
  have ex: "\<exists>i0. find_router_by_ip cfg ip num_networks = int i0 + 1 \<and> i0 \<le> i1 \<and>
               (\<exists>j<num_networks ! i0. cfg ! i0 ! j = ip) \<and>
               (\<forall>i'<i0. \<forall>j<num_networks ! i'. cfg ! i' ! j \<noteq> ip)"
    using i0 le first(2,3) by blast
  have at: "find_router_by_ip cfg ip num_networks = int i1 + 1"
    if "\<forall>i'<i1. \<forall>j<num_networks ! i'. cfg ! i' ! j \<noteq> ip"
    using that i1 assms(8,10) find_router_by_ip_first [of cfg ip num_networks i1] by blast
  have ne: "find_router_by_ip cfg ip num_networks \<noteq> int i2 + 1"
    using i0 le assms(6) by simp
  have bounds: "1 \<le> find_router_by_ip cfg ip num_networks \<and>
      find_router_by_ip cfg ip num_networks \<le> int i1 + 1"
    using i0 le by simp
  from l ex at ne bounds show ?thesis by blast
qed

theorem duplicate_ip_is_loaded_witness:
  "list_all (\<lambda>n. n \<le> MAX_NETWORKS_PER_ROUTER) [1, 0, 1, 1] \<and>
   list_all (\<lambda>w. validate_ip w \<and> length w < MAX_IP_LEN) [''10.0.0.9'', ''10.0.0.1'', ''10.0.0.1''] \<and>
   example_late_duplicate_configs =
     fill_rows [1, 0, 1, 1] router_configs_init [''10.0.0.9'', ''10.0.0.1'', ''10.0.0.1''] \<and>
   example_late_duplicate_configs ! 2 ! 0 = ''10.0.0.1'' \<and>
   example_late_duplicate_configs ! 3 ! 0 = ''10.0.0.1'' \<and>
   example_late_duplicate_configs ! 0 ! 0 \<noteq> ''10.0.0.1'' \<and>
   load_routers router_configs_init 0 [1, 0, 1, 1] [''10.0.0.9'', ''10.0.0.1'', ''10.0.0.1''] =
     Done (example_late_duplicate_configs, []) \<and>
   find_router_by_ip example_late_duplicate_configs ''10.0.0.1'' [1, 0, 1, 1] = 3"
proof -
  have a1: "length [1, 0, 1, 1 :: nat] = NUM_ROUTERS" by (simp add: NUM_ROUTERS_def)
  have a2: "list_all (\<lambda>n. n \<le> MAX_NETWORKS_PER_ROUTER) [1, 0, 1, 1]"
    by (simp add: MAX_NETWORKS_PER_ROUTER_def)
  have a3: "list_all (\<lambda>w. validate_ip w \<and> length w < MAX_IP_LEN) [''10.0.0.9'', ''10.0.0.1'', ''10.0.0.1'']"
    by code_simp
  have a4: "length [''10.0.0.9'', ''10.0.0.1'', ''10.0.0.1''] = sum_list [1, 0, 1, 1 :: nat]" by simp
  have a5: "example_late_duplicate_configs =
      fill_rows [1, 0, 1, 1] router_configs_init [''10.0.0.9'', ''10.0.0.1'', ''10.0.0.1'']"
    by code_simp
  have a6: "(2::nat) < 3" and a7: "3 < NUM_ROUTERS" by (simp_all add: NUM_ROUTERS_def)
  have a8: "0 < [1, 0, 1, 1 :: nat] ! 2" and a9: "0 < [1, 0, 1, 1 :: nat] ! 3" by simp_all
  have a10: "example_late_duplicate_configs ! 2 ! 0 = ''10.0.0.1''"
    and a11: "example_late_duplicate_configs ! 3 ! 0 = ''10.0.0.1''"
    by (simp_all add: example_late_duplicate_configs_def)
  have b0: "example_late_duplicate_configs ! 0 ! 0 \<noteq> ''10.0.0.1''"
    by (simp add: example_late_duplicate_configs_def)
  have before: "\<forall>i'<2. \<forall>j<[1, 0, 1, 1 :: nat] ! i'. example_late_duplicate_configs ! i' ! j \<noteq> ''10.0.0.1''"
  proof (intro allI impI)
    fix i' j :: nat
    assume i': "i' < 2" and j: "j < [1, 0, 1, 1 :: nat] ! i'"
    from i' have "i' = 0 \<or> i' = 1" by auto
    then show "example_late_duplicate_configs ! i' ! j \<noteq> ''10.0.0.1''"
    proof
      assume z: "i' = 0"
      with j have "j = 0" by simp
      with z b0 show ?thesis by simp
    next
      assume "i' = 1"
      with j show ?thesis by simp
    qed
  qed
  from duplicate_ip_is_loaded [OF a1 a2 a3 a4 a5 a6 a7 a8 a9 a10 a11] before
  have l: "load_routers router_configs_init 0 [1, 0, 1, 1] [''10.0.0.9'', ''10.0.0.1'', ''10.0.0.1''] =
      Done (example_late_duplicate_configs, [])"
    and f: "find_router_by_ip example_late_duplicate_configs ''10.0.0.1'' [1, 0, 1, 1] = int 2 + 1"
    by blast+
  from f have "find_router_by_ip example_late_duplicate_configs ''10.0.0.1'' [1, 0, 1, 1] = 3" by simp
  with a2 a3 a5 a10 a11 b0 l show ?thesis by blast
qed

text \<open>
  Claim C8, as stated, fails: with \<open>10.0.0.1\<close> given to router 1 and to router 2, loading
  succeeds, the simulation goes on to serve a query from \<open>10.0.0.1\<close> to \<open>10.0.0.2\<close>, and
  the lookup resolves \<open>10.0.0.1\<close> to router 1, the first match (the route is 1, 2).
\<close>

theorem duplicate_ip_counterexample:
  "load_routers router_configs_init 0 [1, 2, 0, 0] [''10.0.0.1'', ''10.0.0.1'', ''10.0.0.2''] =
     Done (example_duplicate_configs, []) \<and>
   find_router_by_ip example_duplicate_configs ''10.0.0.1'' [1, 2, 0, 0] = 1 \<and>
   (case run_routing_simulation
           [''10.0.0.1'', ''10.0.0.1'', ''10.0.0.2'', ''10.0.0.1'', ''10.0.0.2'']
           [Some 1, Some 2, Some 0, Some 0, Some 1, Some 1] of
      Done (reports, h, ws, ns) \<Rightarrow> reports = [new_route_logged 12] \<and> history_count h = 1
    | Starved \<Rightarrow> False
    | Undefined u \<Rightarrow> False)"
  by code_simp

section \<open>What the address check computes\<close>

lemma split_dots_unfold:
  "split_dots s = takeWhile (\<lambda>c. \<not> is_dot c) s #
     (case dropWhile (\<lambda>c. \<not> is_dot c) s of [] \<Rightarrow> [] | c # r \<Rightarrow> split_dots r)"
  by (induction s) (auto split: list.splits)

lemma tokens_dots: "tokens s = tokens (dropWhile is_dot s)"
  by (induction s) (auto simp: tokens_def)

lemma tokens_Nil: "tokens [] = []"
  by (simp add: tokens_def)

lemma strtok_None_tokens:
  assumes "strtok s = None"
  shows "tokens s = []"
proof -
  from assms have "dropWhile is_dot s = []" by (auto simp: strtok_def Let_def split: if_splits)
  with tokens_dots [of s] show ?thesis by (simp only: tokens_Nil)
qed

lemma strtok_Some_tokens:
  assumes "strtok s = Some (tok, rest)"
  shows "tokens s = tok # tokens rest"
proof -
  let ?s1 = "dropWhile is_dot s"
  let ?nd = "\<lambda>c. \<not> is_dot c"
  from assms have ne: "?s1 \<noteq> []" and tok: "tok = takeWhile ?nd ?s1"
    and rest: "rest = drop 1 (dropWhile ?nd ?s1)"
    by (auto simp: strtok_def Let_def split: if_splits)
  have "\<not> is_dot (hd ?s1)" by (rule hd_dropWhile) (rule ne)
  with ne have "takeWhile ?nd ?s1 \<noteq> []" by (cases ?s1) auto
  then have tw: "takeWhile ?nd ?s1 \<noteq> []" .
  define later where "later = (case dropWhile ?nd ?s1 of [] \<Rightarrow> [] | c # r \<Rightarrow> split_dots r)"
  have "split_dots ?s1 = takeWhile ?nd ?s1 # later"
    unfolding later_def by (rule split_dots_unfold)
  then have "tokens ?s1 = filter (\<lambda>t. t \<noteq> []) (takeWhile ?nd ?s1 # later)"
    by (simp only: tokens_def)
  with tw have t1: "tokens ?s1 = takeWhile ?nd ?s1 # filter (\<lambda>t. t \<noteq> []) later" by simp
  have "filter (\<lambda>t. t \<noteq> []) later = tokens rest"
  proof (cases "dropWhile ?nd ?s1")
    case Nil
    then have "later = []" and "rest = []" by (simp_all only: later_def rest list.case drop_Nil)
    then show ?thesis by (simp add: tokens_Nil)
  next
    case (Cons c r)
    then have "later = split_dots r" and "rest = r" by (simp_all only: later_def rest list.case drop_Suc_Cons drop_0 One_nat_def)
    then show ?thesis by (simp add: tokens_def)
  qed
  with t1 tok have "tokens ?s1 = tok # tokens rest" by simp
  with tokens_dots [of s] show ?thesis by simp
qed


text \<open>A token as the loop of \<open>validate_ip\<close> checks it, with \<open>conv\<close> in the place of \<open>atoi\<close>.\<close>

lemma octet_atoi:
  "octet t = (validate_number t \<and> \<not> (atoi t < 0 \<or> atoi t > 255))"
proof (cases "t \<noteq> [] \<and> list_all isdigit t")
  case True
  then have "atoi t = int (digits_value t)" by (simp add: atoi_def parse_decimal_digits)
  with True show ?thesis by (auto simp: octet_def validate_number_def)
next
  case False
  then show ?thesis by (auto simp: octet_def validate_number_def)
qed

lemma ip_loop_tokens:
  "ip_loop conv ptr rest oc dots =
     (list_all (\<lambda>t. validate_number t \<and> \<not> (conv t < 0 \<or> conv t > 255)) (ptr # tokens rest) \<and>
      Suc oc + length (tokens rest) = 4 \<and> dots + length (tokens rest) = 3)"
proof (induction conv ptr rest oc dots rule: ip_loop.induct)
  case (1 conv ptr rest oc dots)
  show ?case
  proof (cases "validate_number ptr \<and> \<not> (conv ptr < 0 \<or> conv ptr > 255)")
    case False
    then show ?thesis by (subst ip_loop.simps) auto
  next
    case True
    then have vn: "validate_number ptr" and r: "\<not> (conv ptr < 0 \<or> conv ptr > 255)"
      by simp_all
    show ?thesis
    proof (cases "strtok rest")
      case None
      then have "tokens rest = []" by (rule strtok_None_tokens)
      with None vn r show ?thesis by (subst ip_loop.simps) auto
    next
      case (Some x)
      obtain ptr' rest' where x: "x = (ptr', rest')" by (cases x)
      from Some x have tk: "tokens rest = ptr' # tokens rest'" by (simp add: strtok_Some_tokens)
      have "ip_loop conv ptr' rest' (Suc oc) (Suc dots) =
          (list_all (\<lambda>t. validate_number t \<and> \<not> (conv t < 0 \<or> conv t > 255)) (ptr' # tokens rest') \<and>
           Suc (Suc oc) + length (tokens rest') = 4 \<and> Suc dots + length (tokens rest') = 3)"
        using "1.IH" [OF _ _ Some x [symmetric]] vn r by blast
      with Some x vn r tk show ?thesis by (subst ip_loop.simps) auto
    qed
  qed
qed

lemma validate_ip_with_tokens:
  assumes "length s < MAX_IP_LEN"
  shows "validate_ip_with conv s =
     (length (tokens s) = 4 \<and>
      list_all (\<lambda>t. validate_number t \<and> \<not> (conv t < 0 \<or> conv t > 255)) (tokens s))"
proof (cases "strtok s")
  case None
  then have "tokens s = []" by (rule strtok_None_tokens)
  with None assms show ?thesis by (simp add: validate_ip_with_def)
next
  case (Some x)
  obtain ptr rest where x: "x = (ptr, rest)" by (cases x)
  from Some x have tk: "tokens s = ptr # tokens rest" by (simp add: strtok_Some_tokens)
  from Some have ne: "s \<noteq> []" by (auto simp: strtok_def)
  from assms have t: "take (MAX_IP_LEN - 1) s = s" by simp
  show ?thesis using Some x tk ne t by (auto simp: validate_ip_with_def ip_loop_tokens)
qed

text \<open>What \<open>validate_ip\<close> computes on a string that fits the buffer.\<close>

lemma validate_ip_tokens:
  assumes "length s < MAX_IP_LEN"
  shows "validate_ip s = (length (tokens s) = 4 \<and> list_all octet (tokens s))"
proof -
  have "octet = (\<lambda>t. validate_number t \<and> \<not> (atoi t < 0 \<or> atoi t > 255))"
    by (rule ext) (rule octet_atoi)
  with validate_ip_with_tokens [OF assms, of atoi] show ?thesis
    by (simp only: validate_ip_def)
qed

text \<open>
  On strings that fit the buffer the code accepts everything the specification accepts,
  and agrees with it on every string without an empty piece.
\<close>

lemma dotted_quad_accepted:
  assumes "length s < MAX_IP_LEN" and "dotted_quad s"
  shows "validate_ip s"
proof -
  from assms(2) have "list_all (\<lambda>t. t \<noteq> []) (split_dots s)"
    by (auto simp: dotted_quad_def octet_def list_all_iff)
  then have "tokens s = split_dots s" by (simp add: tokens_def list_all_iff)
  with assms show ?thesis by (simp add: validate_ip_tokens dotted_quad_def)
qed

lemma validate_ip_without_empty_piece:
  assumes "length s < MAX_IP_LEN" and "[] \<notin> set (split_dots s)"
  shows "validate_ip s = dotted_quad s"
proof -
  from assms(2) have "tokens s = split_dots s" by (auto simp: tokens_def filter_id_conv)
  with assms(1) show ?thesis by (simp add: validate_ip_tokens dotted_quad_def)
qed

subsection \<open>The result does not depend on what \<open>atoi\<close> returns on overflow\<close>

lemma split_dots_nonempty: "split_dots s \<noteq> []"
  by (induction s) (auto split: list.splits)

lemma split_dots_length:
  "sum_list (map length (split_dots s)) + length (split_dots s) = Suc (length s)"
proof (induction s)
  case Nil
  show ?case by simp
next
  case (Cons c cs)
  obtain t ts where sp: "split_dots cs = t # ts"
    using split_dots_nonempty [of cs] by (cases "split_dots cs") auto
  with Cons show ?case by simp
qed

lemma tokens_length:
  "sum_list (map length (tokens s)) + length (tokens s) \<le> Suc (length s)"
proof -
  have a: "sum_list (map length (filter (\<lambda>t. t \<noteq> []) xs)) = sum_list (map length xs)" for xs :: "string list"
    by (induction xs) auto
  have b: "length (filter (\<lambda>t. t \<noteq> []) (split_dots s)) \<le> length (split_dots s)"
    by (rule length_filter_le)
  have c: "sum_list (map length (split_dots s)) + length (split_dots s) = Suc (length s)"
    by (rule split_dots_length)
  show ?thesis unfolding tokens_def using a [of "split_dots s"] b c by linarith
qed

lemma tokens_nonempty: "t \<in> set (tokens s) \<Longrightarrow> t \<noteq> []"
  by (simp add: tokens_def)

lemma nonempty_lengths:
  "\<forall>u\<in>set us. u \<noteq> [] \<Longrightarrow> length us \<le> sum_list (map length us)"
proof (induction us)
  case Nil
  show ?case by simp
next
  case (Cons v vs)
  then have "1 \<le> length v" by (cases v) auto
  moreover from Cons have "length vs \<le> sum_list (map length vs)" by simp
  ultimately show ?case by simp
qed

lemma member_length_bound:
  assumes "t \<in> set ts" and "\<forall>u\<in>set ts. u \<noteq> []"
  shows "length t + length ts \<le> Suc (sum_list (map length ts))"
  using assms
proof (induction ts)
  case Nil
  then show ?case by simp
next
  case (Cons u us)
  from Cons.prems(2) have all: "length us \<le> sum_list (map length us)"
    by (intro nonempty_lengths) simp
  from Cons.prems(2) have u: "1 \<le> length u" by (cases u) auto
  show ?case
  proof (cases "t = u")
    case True
    with all show ?thesis by simp
  next
    case False
    with Cons.prems have "t \<in> set us" by simp
    with Cons.IH Cons.prems(2) have "length t + length us \<le> Suc (sum_list (map length us))" by simp
    with u show ?thesis by simp
  qed
qed

text \<open>With four tokens in fewer than sixteen characters, no token has more than nine.\<close>

lemma four_tokens_short:
  assumes "length s < MAX_IP_LEN" and "length (tokens s) = 4" and "t \<in> set (tokens s)"
  shows "length t \<le> 9"
proof -
  have "length t + length (tokens s) \<le> Suc (sum_list (map length (tokens s)))"
    using assms(3) tokens_nonempty by (intro member_length_bound) auto
  with tokens_length [of s] assms(1,2) show ?thesis by (simp add: MAX_IP_LEN_def)
qed

lemma digits_value_bound: "list_all isdigit t \<Longrightarrow> digits_value t < 10 ^ length t"
proof (induction t rule: rev_induct)
  case Nil
  show ?case by (simp add: digits_value_def)
next
  case (snoc c t)
  then have "digit_val c \<le> 9" by (auto simp: isdigit_def digit_val_def)
  moreover from snoc have "digits_value t + 1 \<le> 10 ^ length t" by simp
  then have "(digits_value t + 1) * 10 \<le> 10 ^ length t * 10" by (rule mult_le_mono1)
  ultimately show ?case by (simp add: digits_value_snoc)
qed

lemma short_token_in_range:
  assumes "validate_number t" and "length t \<le> 9"
  shows "int_range (atoi t)"
proof -
  from assms(1) have ne: "t \<noteq> []" and d: "list_all isdigit t"
    by (auto simp: validate_number_def split: if_splits)
  have "digits_value t < 10 ^ length t" by (rule digits_value_bound [OF d])
  also have "\<dots> \<le> (10::nat) ^ 9" using assms(2) by (intro power_increasing) simp_all
  finally have "int (digits_value t) < 10 ^ 9" by (metis of_nat_less_iff of_nat_numeral of_nat_power)
  then show ?thesis using ne d by (simp add: atoi_def parse_decimal_digits int_range_def)
qed

lemma validate_ip_any_atoi:
  assumes "length s < MAX_IP_LEN"
    and "\<And>t. int_range (atoi t) \<Longrightarrow> conv t = atoi t"
  shows "validate_ip_with conv s = validate_ip s"
proof (cases "length (tokens s) = 4")
  case False
  with assms(1) show ?thesis by (simp add: validate_ip_with_tokens validate_ip_def)
next
  case True
  have "(validate_number t \<and> \<not> (conv t < 0 \<or> conv t > 255)) =
        (validate_number t \<and> \<not> (atoi t < 0 \<or> atoi t > 255))" if "t \<in> set (tokens s)" for t
  proof (cases "validate_number t")
    case False
    then show ?thesis by simp
  next
    case vn: True
    have "length t \<le> 9" by (rule four_tokens_short [OF assms(1) True that])
    with vn have "conv t = atoi t" by (intro assms(2) short_token_in_range)
    then show ?thesis by simp
  qed
  then have "list_all (\<lambda>t. validate_number t \<and> \<not> (conv t < 0 \<or> conv t > 255)) (tokens s) =
      list_all (\<lambda>t. validate_number t \<and> \<not> (atoi t < 0 \<or> atoi t > 255)) (tokens s)"
    by (simp add: list_all_iff)
  with assms(1) show ?thesis by (simp add: validate_ip_with_tokens validate_ip_def)
qed

section \<open>The address check\<close>

lemma validate_ip_examples:
  "validate_ip ''192.168.1.1'' \<and> \<not> validate_ip ''192.168.1'' \<and> \<not> validate_ip ''192.168.1.256'' \<and>
   \<not> validate_ip ''1.2.3.4.5'' \<and> \<not> validate_ip ''a.b.c.d'' \<and> validate_ip ''01.2.3.4''"
  by code_simp

text \<open>
  Claim C2. On a string that fits the buffer \<open>validate_ip\<close> accepts every valid address of
  the specification (\<open>dotted_quad_accepted\<close>) and agrees with the specification on every
  string without an empty piece (\<open>validate_ip_without_empty_piece\<close>). It does not reject
  every string with a doubled, leading or trailing dot, though: \<open>strtok\<close> skips runs of
  dots, so the empty pieces are never seen, and the counter \<open>dots\<close> counts the tokens after
  the first, not the dots (\<open>validate_ip_tokens\<close>). Each of the three strings below has an
  empty piece and four dots, and each is accepted.
\<close>

theorem validate_ip_accepts_empty_tokens:
  "validate_ip ''1..2.3.4'' \<and> validate_ip ''.1.2.3.4'' \<and> validate_ip ''1.2.3.4.''"
  by code_simp

end
